theory Spec2Isabelle
  imports Complex_Main "HOL-Library.Product_Lexorder" "HOL-Library.Multiset"
begin

section \<open>Data model of og\_membership\_test.py\<close>

text \<open>
  A Python \<open>dict\<close> with string keys is an association list in insertion order (Python
  keeps insertion order); its keys are pairwise distinct. \<open>d[k] = v\<close> overwrites the
  value in place when the key is there and appends the pair otherwise.
\<close>

type_synonym 'v dict = "(string \<times> 'v) list"

fun dict_set :: "string \<Rightarrow> 'v \<Rightarrow> 'v dict \<Rightarrow> 'v dict" where
  "dict_set k v [] = [(k, v)]"
| "dict_set k v (p # ps) = (if fst p = k then (k, v) # ps else p # dict_set k v ps)"

definition keys :: "'v dict \<Rightarrow> string list" where
  "keys d = map fst d"

text \<open>
  A membership record is the list of the four programs' cluster ids of one protein, with
  the string \<open>"-"\<close> where a program did not cluster the protein.
\<close>

type_synonym membership_record = "string list"

definition nonsentinel_count :: "membership_record \<Rightarrow> nat" where
  "nonsentinel_count r = length (filter (\<lambda>s. s \<noteq> ''-'') r)"

section \<open>The index filter\<close>

text \<open>
  \<open>filter_prot_dict\<close>, the computation: the first loop collects in \<open>remove_list\<close> the keys
  whose value list, turned into a set, has exactly two elements; the second loop copies
  the other entries, in order. \<open>prot_dict[key]\<close> for a key taken from \<open>prot_dict.keys()\<close>
  is the value stored with that key, so both loops run over the items.
\<close>

definition remove_list :: "membership_record dict \<Rightarrow> string list" where
  "remove_list prot_dict =
     fold (\<lambda>(key, v) acc. if length (remdups v) = 2 then acc @ [key] else acc) prot_dict []"

definition filter_prot_dict :: "membership_record dict \<Rightarrow> membership_record dict" where
  "filter_prot_dict prot_dict =
     fold (\<lambda>(key, v) filt. if key \<notin> set (remove_list prot_dict) then dict_set key v filt else filt)
       prot_dict []"

section \<open>The sequence matcher of the Python library\<close>

text \<open>
  \<open>membership_test\<close> scores two member lists with
  \<open>difflib.SequenceMatcher(None, a, b).ratio()\<close>. The matcher is library code; it is
  modelled here from \<open>difflib.py\<close> as the program calls it: no junk predicate
  (\<open>isjunk = None\<close>, so \<open>bjunk\<close> stays empty) and \<open>autojunk = True\<close>.

  \<open>__chain_b\<close>: \<open>b2j\<close> maps each element of \<open>b\<close> to the increasing list of its
  positions; when \<open>b\<close> has at least 200 elements, an element with more than
  \<open>len(b) // 100 + 1\<close> positions is popular and is deleted from \<open>b2j\<close>.
  \<open>b2j_get b elt\<close> is \<open>b2j.get(elt, [])\<close>.
\<close>

definition indices :: "'a list \<Rightarrow> 'a \<Rightarrow> nat list" where
  "indices b elt = filter (\<lambda>j. b ! j = elt) [0..<length b]"

definition popular :: "'a list \<Rightarrow> 'a \<Rightarrow> bool" where
  "popular b elt = (200 \<le> length b \<and> length b div 100 + 1 < length (indices b elt))"

definition b2j_get :: "'a list \<Rightarrow> 'a \<Rightarrow> nat list" where
  "b2j_get b elt = (if popular b elt then [] else indices b elt)"

definition isbjunk :: "'a \<Rightarrow> bool" where
  "isbjunk elt = False"

text \<open>
  A match is the triple \<open>(i, j, k)\<close>: \<open>a[i:i+k]\<close> against \<open>b[j:j+k]\<close>.
  \<open>j2len\<close> is a dictionary from positions of \<open>b\<close> to lengths;
  \<open>j2len.get(j-1, 0)\<close> finds nothing for \<open>j = 0\<close>, the key being \<open>-1\<close>.
\<close>

type_synonym match = "nat \<times> nat \<times> nat"

definition j2lenget :: "(nat \<rightharpoonup> nat) \<Rightarrow> nat \<Rightarrow> nat" where
  "j2lenget j2len j = (if j = 0 then 0 else case j2len (j - 1) of None \<Rightarrow> 0 | Some v \<Rightarrow> v)"

text \<open>
  The inner loop of \<open>find_longest_match\<close> over the positions \<open>j\<close> of \<open>a[i]\<close> in
  \<open>b\<close>, with its \<open>continue\<close> and its \<open>break\<close>. \<open>j2lenget j2len j\<close> is the value for the
  key \<open>j - 1\<close>. The new best match starts at \<open>i-k+1\<close>, \<open>j-k+1\<close>.
\<close>

fun scan_row :: "(nat \<rightharpoonup> nat) \<Rightarrow> nat \<Rightarrow> nat \<Rightarrow> nat \<Rightarrow> nat list
    \<Rightarrow> match \<times> (nat \<rightharpoonup> nat) \<Rightarrow> match \<times> (nat \<rightharpoonup> nat)" where
  "scan_row j2len i blo bhi [] st = st"
| "scan_row j2len i blo bhi (j # js) ((besti, bestj, bestsize), newj2len) =
     (if j < blo then scan_row j2len i blo bhi js ((besti, bestj, bestsize), newj2len)
      else if bhi \<le> j then ((besti, bestj, bestsize), newj2len)
      else
        let k = j2lenget j2len j + 1 in
        scan_row j2len i blo bhi js
          (if bestsize < k then (i + 1 - k, j + 1 - k, k) else (besti, bestj, bestsize),
           newj2len(j \<mapsto> k)))"

text \<open>
  The outer loop, \<open>for i in range(alo, ahi)\<close>: each row starts a new \<open>newj2len\<close>, which
  becomes \<open>j2len\<close> for the next row.
\<close>

fun scan_step :: "'a list \<Rightarrow> 'a list \<Rightarrow> nat \<Rightarrow> nat \<Rightarrow> nat
    \<Rightarrow> match \<times> (nat \<rightharpoonup> nat) \<Rightarrow> match \<times> (nat \<rightharpoonup> nat)" where
  "scan_step a b blo bhi i (best, j2len) =
     scan_row j2len i blo bhi (b2j_get b (a ! i)) (best, Map.empty)"

definition scan_rows :: "'a list \<Rightarrow> 'a list \<Rightarrow> nat \<Rightarrow> nat \<Rightarrow> nat \<Rightarrow> nat
    \<Rightarrow> match \<times> (nat \<rightharpoonup> nat)" where
  "scan_rows a b alo ahi blo bhi =
     fold (scan_step a b blo bhi) [alo..<ahi] ((alo, blo, 0), Map.empty)"

text \<open>
  The four \<open>while\<close> loops that extend the best match to the left and to the right: first
  over elements that are not junk, then over junk. \<open>ok\<close> is the test on the element of
  \<open>b\<close>.
\<close>

fun extend_left :: "('a \<Rightarrow> bool) \<Rightarrow> 'a list \<Rightarrow> 'a list \<Rightarrow> nat \<Rightarrow> nat \<Rightarrow> match \<Rightarrow> match" where
  "extend_left ok a b alo blo (besti, bestj, bestsize) =
     (if alo < besti \<and> blo < bestj \<and> ok (b ! (bestj - 1)) \<and> a ! (besti - 1) = b ! (bestj - 1)
      then extend_left ok a b alo blo (besti - 1, bestj - 1, bestsize + 1)
      else (besti, bestj, bestsize))"

function extend_right :: "('a \<Rightarrow> bool) \<Rightarrow> 'a list \<Rightarrow> 'a list \<Rightarrow> nat \<Rightarrow> nat \<Rightarrow> match \<Rightarrow> match" where
  "extend_right ok a b ahi bhi (besti, bestj, bestsize) =
     (if besti + bestsize < ahi \<and> bestj + bestsize < bhi \<and> ok (b ! (bestj + bestsize))
         \<and> a ! (besti + bestsize) = b ! (bestj + bestsize)
      then extend_right ok a b ahi bhi (besti, bestj, bestsize + 1)
      else (besti, bestj, bestsize))"
  by pat_completeness auto
termination
  by (relation "measure (\<lambda>(ok, a, b, ahi, bhi, besti, bestj, bestsize). ahi - (besti + bestsize))") auto

definition find_longest_match :: "'a list \<Rightarrow> 'a list \<Rightarrow> nat \<Rightarrow> nat \<Rightarrow> nat \<Rightarrow> nat \<Rightarrow> match" where
  "find_longest_match a b alo ahi blo bhi =
     extend_right isbjunk a b ahi bhi
       (extend_left isbjunk a b alo blo
         (extend_right (\<lambda>elt. \<not> isbjunk elt) a b ahi bhi
           (extend_left (\<lambda>elt. \<not> isbjunk elt) a b alo blo
             (fst (scan_rows a b alo ahi blo bhi)))))"

text \<open>
  \<open>get_matching_blocks\<close>: the \<open>while queue\<close> loop. The queue is a stack
  (\<open>queue.pop()\<close> takes what was appended last), kept here with its top first. The
  regions are \<open>(alo, ahi, blo, bhi)\<close>.
\<close>

type_synonym region = "nat \<times> nat \<times> nat \<times> nat"

function matching_loop :: "'a list \<Rightarrow> 'a list \<Rightarrow> region list \<Rightarrow> match list \<Rightarrow> match list" where
  "matching_loop a b [] matching_blocks = matching_blocks"
| "matching_loop a b ((alo, ahi, blo, bhi) # queue) matching_blocks =
     (case find_longest_match a b alo ahi blo bhi of (i, j, k) \<Rightarrow>
        if k \<noteq> 0 then
          matching_loop a b
            ((if i + k < ahi \<and> j + k < bhi then [(i + k, ahi, j + k, bhi)] else [])
              @ (if alo < i \<and> blo < j then [(alo, i, blo, j)] else []) @ queue)
            (matching_blocks @ [(i, j, k)])
        else matching_loop a b queue matching_blocks)"
  by pat_completeness auto

text \<open>
  The loop that collapses adjacent blocks, started with \<open>i1 = j1 = k1 = 0\<close>; the state
  is the block compared against and \<open>non_adjacent\<close>.
\<close>

fun collapse_step :: "match \<Rightarrow> match \<times> match list \<Rightarrow> match \<times> match list" where
  "collapse_step (i2, j2, k2) ((i1, j1, k1), non_adjacent) =
     (if i1 + k1 = i2 \<and> j1 + k1 = j2 then ((i1, j1, k1 + k2), non_adjacent)
      else ((i2, j2, k2), if k1 \<noteq> 0 then non_adjacent @ [(i1, j1, k1)] else non_adjacent))"

definition collapse :: "match list \<Rightarrow> match list" where
  "collapse matching_blocks =
     (case fold collapse_step matching_blocks ((0, 0, 0), []) of
        ((i1, j1, k1), non_adjacent) \<Rightarrow>
          if k1 \<noteq> 0 then non_adjacent @ [(i1, j1, k1)] else non_adjacent)"

definition get_matching_blocks :: "'a list \<Rightarrow> 'a list \<Rightarrow> match list" where
  "get_matching_blocks a b =
     collapse (sort (matching_loop a b [(0, length a, 0, length b)] []))
       @ [(length a, length b, 0)]"

text \<open>
  \<open>ratio\<close> and \<open>_calculate_ratio\<close>. Python computes \<open>2.0 * matches / length\<close> in
  floating point; the model keeps the exact quotient, a rational number, of which the
  float is the rounding. Scores are rationals throughout.
\<close>

definition calculate_ratio :: "nat \<Rightarrow> nat \<Rightarrow> rat" where
  "calculate_ratio matches len = (if len \<noteq> 0 then 2 * of_nat matches / of_nat len else 1)"

definition matches :: "'a list \<Rightarrow> 'a list \<Rightarrow> nat" where
  "matches a b = sum_list (map (\<lambda>(i, j, k). k) (get_matching_blocks a b))"

definition ratio :: "'a list \<Rightarrow> 'a list \<Rightarrow> rat" where
  "ratio a b = calculate_ratio (matches a b) (length a + length b)"

section \<open>Errors\<close>

text \<open>
  Every exception that ends a run is a value. \<open>UsageError\<close> is \<open>parser.error\<close>;
  \<open>InputFormatError\<close> stands for what Python raises on a file that does not hold a
  mapping of the shape the stage needs.
\<close>

datatype error =
    UsageError string
  | IndexError
  | TypeError
  | NameError
  | KeyError string
  | StatisticsError
  | FileNotFoundError string
  | InputFormatError string

fun bind_sum :: "error + 'a \<Rightarrow> ('a \<Rightarrow> error + 'b) \<Rightarrow> error + 'b" where
  "bind_sum (Inl e) f = Inl e"
| "bind_sum (Inr x) f = f x"

definition nth_py :: "'a list \<Rightarrow> nat \<Rightarrow> error + 'a" where
  "nth_py xs i = (if i < length xs then Inr (xs ! i) else Inl IndexError)"

definition dict_get :: "'v dict \<Rightarrow> string \<Rightarrow> error + 'v" where
  "dict_get d k = (case map_of d k of None \<Rightarrow> Inl (KeyError k) | Some v \<Rightarrow> Inr v)"

section \<open>The cluster loader and the membership index builder\<close>

text \<open>
  \<open>data_2_pandas\<close> turns a cluster mapping (cluster id to member list) into a data frame
  with one row per cluster and member, in the order of the mapping and of each member
  list. After the \<open>reindex\<close> a row is (\<open>Query\<close>, cluster id).
\<close>

type_synonym cluster_dict = "string list dict"
type_synonym dataframe = "(string \<times> string) list"

definition to_df :: "cluster_dict \<Rightarrow> dataframe" where
  "to_df prog_dict = concat (map (\<lambda>(key, L). map (\<lambda>var. (var, key)) L) prog_dict)"

definition queries :: "dataframe \<Rightarrow> string list" where
  "queries prog_df = map fst prog_df"

text \<open>
  \<open>prog_df.loc[prog_df['Query'] == prot, colname].iloc[0]\<close>: the cluster id of the first
  row whose query is \<open>prot\<close>. The program evaluates it only under
  \<open>prot in prog_queries\<close>, where the selection is not empty.
\<close>

definition loc_iloc0 :: "dataframe \<Rightarrow> string \<Rightarrow> string" where
  "loc_iloc0 prog_df prot =
     (case filter (\<lambda>row. fst row = prot) prog_df of [] \<Rightarrow> ''-'' | row # _ \<Rightarrow> snd row)"

definition prog_og :: "dataframe \<Rightarrow> string \<Rightarrow> string" where
  "prog_og prog_df prot =
     (if prot \<in> set (queries prog_df) then loc_iloc0 prog_df prot else ''-'')"

text \<open>
  \<open>create_prot_dict\<close>. Python does not fix the order in which it iterates over the set
  of queries; \<open>set_iter\<close> is that order, a parameter of the model: it lists the elements
  of its argument once each.
\<close>

definition set_iter_ok :: "(string list \<Rightarrow> string list) \<Rightarrow> string list \<Rightarrow> bool" where
  "set_iter_ok set_iter xs = (distinct (set_iter xs) \<and> set (set_iter xs) = set xs)"

definition create_prot_dict :: "(string list \<Rightarrow> string list)
    \<Rightarrow> dataframe \<Rightarrow> dataframe \<Rightarrow> dataframe \<Rightarrow> dataframe \<Rightarrow> membership_record dict" where
  "create_prot_dict set_iter prog1_df prog2_df prog3_df prog4_df =
     fold (\<lambda>prot prot_dict.
             dict_set prot [prog_og prog1_df prot, prog_og prog2_df prot,
                            prog_og prog3_df prot, prog_og prog4_df prot] prot_dict)
       (set_iter (queries prog1_df @ queries prog2_df @ queries prog3_df @ queries prog4_df))
       []"

section \<open>The pairwise comparator\<close>

text \<open>
  The six keys of \<open>comparison_dict\<close>, assigned in this order with empty lists. The
  program names are the first four entries of \<open>program_list\<close>.
\<close>

type_synonym program_names = "string \<times> string \<times> string \<times> string"

definition vs :: "string \<Rightarrow> string \<Rightarrow> string" where
  "vs x y = x @ ''_vs_'' @ y"

definition comparison_names :: "program_names \<Rightarrow> string list" where
  "comparison_names pl = (case pl of (n1, n2, n3, n4) \<Rightarrow>
     [vs n1 n2, vs n1 n3, vs n1 n4, vs n2 n3, vs n2 n4, vs n3 n4])"

definition empty_comparison_dict :: "program_names \<Rightarrow> rat list dict" where
  "empty_comparison_dict pl = fold (\<lambda>name d. dict_set name [] d) (comparison_names pl) []"

text \<open>\<open>comparison_dict[name].append(score)\<close>; every name used is a key.\<close>

definition dict_append :: "string \<Rightarrow> rat \<Rightarrow> rat list dict \<Rightarrow> rat list dict" where
  "dict_append name score d = map (\<lambda>(k, l). if k = name then (k, l @ [score]) else (k, l)) d"

text \<open>
  One of the six \<open>if\<close> blocks of the loop body: the test on the slots \<open>x\<close> and \<open>y\<close>,
  then the two cluster lookups in the order of the source (slot \<open>s1\<close> in \<open>dict1\<close>, then
  slot \<open>s2\<close> in \<open>dict2\<close>), the ratio of the first list against the second, and the
  append. A missing slot is an IndexError, a missing cluster id a KeyError.
\<close>

definition og_compare :: "cluster_dict \<Rightarrow> string \<Rightarrow> cluster_dict \<Rightarrow> string \<Rightarrow> error + rat" where
  "og_compare dict1 og1 dict2 og2 =
     bind_sum (dict_get dict1 og1) (\<lambda>compare1.
     bind_sum (dict_get dict2 og2) (\<lambda>compare2.
     Inr (ratio compare1 compare2)))"

definition compare_block :: "string \<Rightarrow> nat \<Rightarrow> nat \<Rightarrow> cluster_dict \<Rightarrow> nat \<Rightarrow> cluster_dict \<Rightarrow> nat
    \<Rightarrow> membership_record \<Rightarrow> rat list dict \<Rightarrow> error + rat list dict" where
  "compare_block name x y dict1 s1 dict2 s2 record comparison_dict =
     bind_sum (nth_py record x) (\<lambda>slot_x.
       if slot_x = ''-'' then Inr comparison_dict
       else bind_sum (nth_py record y) (\<lambda>slot_y.
         if slot_y = ''-'' then Inr comparison_dict
         else bind_sum (nth_py record s1) (\<lambda>og1.
              bind_sum (nth_py record s2) (\<lambda>og2.
              bind_sum (og_compare dict1 og1 dict2 og2) (\<lambda>score.
              Inr (dict_append name score comparison_dict))))))"

definition compare_record :: "program_names
    \<Rightarrow> cluster_dict \<Rightarrow> cluster_dict \<Rightarrow> cluster_dict \<Rightarrow> cluster_dict
    \<Rightarrow> membership_record \<Rightarrow> rat list dict \<Rightarrow> error + rat list dict" where
  "compare_record pl prog1_dict prog2_dict prog3_dict prog4_dict record comparison_dict =
     (case pl of (n1, n2, n3, n4) \<Rightarrow>
      bind_sum (compare_block (vs n1 n2) 0 1 prog1_dict 0 prog2_dict 1 record comparison_dict) (\<lambda>d1.
      bind_sum (compare_block (vs n1 n3) 0 2 prog1_dict 0 prog3_dict 2 record d1) (\<lambda>d2.
      bind_sum (compare_block (vs n1 n4) 0 3 prog1_dict 0 prog4_dict 3 record d2) (\<lambda>d3.
      bind_sum (compare_block (vs n2 n3) 1 2 prog3_dict 2 prog2_dict 1 record d3) (\<lambda>d4.
      bind_sum (compare_block (vs n2 n4) 1 3 prog4_dict 3 prog2_dict 1 record d4) (\<lambda>d5.
      compare_block (vs n3 n4) 2 3 prog3_dict 2 prog4_dict 3 record d5))))))"

fun compare_loop :: "program_names
    \<Rightarrow> cluster_dict \<Rightarrow> cluster_dict \<Rightarrow> cluster_dict \<Rightarrow> cluster_dict
    \<Rightarrow> membership_record dict \<Rightarrow> rat list dict \<Rightarrow> error + rat list dict" where
  "compare_loop pl d1 d2 d3 d4 [] comparison_dict = Inr comparison_dict"
| "compare_loop pl d1 d2 d3 d4 ((key, record) # rest) comparison_dict =
     bind_sum (compare_record pl d1 d2 d3 d4 record comparison_dict)
       (compare_loop pl d1 d2 d3 d4 rest)"

definition membership_test :: "program_names \<Rightarrow> membership_record dict
    \<Rightarrow> cluster_dict \<Rightarrow> cluster_dict \<Rightarrow> cluster_dict \<Rightarrow> cluster_dict \<Rightarrow> error + rat list dict" where
  "membership_test pl filt_prot_dict prog1_dict prog2_dict prog3_dict prog4_dict =
     compare_loop pl prog1_dict prog2_dict prog3_dict prog4_dict filt_prot_dict
       (empty_comparison_dict pl)"

section \<open>The aggregator and the threshold filter\<close>

text \<open>
  \<open>statistics.mean\<close> raises StatisticsError on an empty list; on floats it divides the
  exact sum by the count.
\<close>

definition mean :: "rat list \<Rightarrow> error + rat" where
  "mean data = (if data = [] then Inl StatisticsError
                else Inr (sum_list data / of_nat (length data)))"

fun avg_loop :: "rat list dict \<Rightarrow> rat dict \<Rightarrow> error + rat dict" where
  "avg_loop [] og_score_dict = Inr og_score_dict"
| "avg_loop ((key, scores) # rest) og_score_dict =
     bind_sum (mean scores) (\<lambda>og_score_avg. avg_loop rest (dict_set key og_score_avg og_score_dict))"

definition avg_membership_scores :: "rat list dict \<Rightarrow> error + rat dict" where
  "avg_membership_scores comparison_dict = avg_loop comparison_dict []"

definition membership_decimal :: "int \<Rightarrow> rat" where
  "membership_decimal membership_percent = of_int membership_percent / 100"

definition threshold_test :: "int \<Rightarrow> rat dict \<Rightarrow> rat dict" where
  "threshold_test membership_percent og_score_dict =
     fold (\<lambda>(key, score) threshold_dict.
             if membership_decimal membership_percent \<le> score
             then dict_set key score threshold_dict else threshold_dict)
       og_score_dict []"

section \<open>The command line, the files and the main program\<close>

text \<open>
  The parsed arguments. The run modes are mutually exclusive and one is required;
  \<open>-c\<close> takes 2, 3, 4 or 5.
\<close>

datatype checkpoint = C2 | C3 | C4 | C5

datatype run_mode = RunAll | Checkpoint checkpoint

record args =
  run_mode :: run_mode
  input_json :: "string option"
  test_identifier :: "string option"
  membership_percent :: int
  out_name :: string
  input_files :: "string list option"
  program_names :: "string list option"

text \<open>
  What the program takes from outside: the iteration order of a Python set, the decimal
  text \<open>str\<close> gives for a float, and the time stamp of the run.
\<close>

record env =
  set_iter :: "string list \<Rightarrow> string list"
  str_float :: "rat \<Rightarrow> string"
  now :: string

text \<open>
  A file holds a JSON object, as the list of its members in the order of the text, or
  the text of the report. \<open>json.load\<close> builds the dictionary by assigning the members
  one after the other; \<open>json.dump\<close> writes the items of the dictionary in order.
\<close>

datatype file_content =
    JsonLists "(string \<times> string list) list"
  | JsonScoreLists "(string \<times> rat list) list"
  | JsonScores "(string \<times> rat) list"
  | Text string

type_synonym fs = "string \<Rightarrow> file_content option"

type_synonym 'a run = "fs \<Rightarrow> (error + 'a) \<times> fs"

definition ret :: "'a \<Rightarrow> 'a run" where
  "ret x = (\<lambda>fs. (Inr x, fs))"

definition lift :: "error + 'a \<Rightarrow> 'a run" where
  "lift r = (\<lambda>fs. (r, fs))"

definition bind_run :: "'a run \<Rightarrow> ('a \<Rightarrow> 'b run) \<Rightarrow> 'b run" where
  "bind_run m f = (\<lambda>fs. case m fs of (Inl e, fs') \<Rightarrow> (Inl e, fs') | (Inr x, fs') \<Rightarrow> f x fs')"

definition dict_of_pairs :: "(string \<times> 'v) list \<Rightarrow> 'v dict" where
  "dict_of_pairs ps = fold (\<lambda>(k, v) d. dict_set k v d) ps []"

definition dump :: "string \<Rightarrow> file_content \<Rightarrow> unit run" where
  "dump name content = (\<lambda>fs. (Inr (), fs(name \<mapsto> content)))"

definition load_lists :: "string \<Rightarrow> string list dict run" where
  "load_lists name = (\<lambda>fs.
     (case fs name of
        None \<Rightarrow> Inl (FileNotFoundError name)
      | Some (JsonLists ps) \<Rightarrow> Inr (dict_of_pairs ps)
      | Some _ \<Rightarrow> Inl (InputFormatError name), fs))"

definition load_score_lists :: "string \<Rightarrow> rat list dict run" where
  "load_score_lists name = (\<lambda>fs.
     (case fs name of
        None \<Rightarrow> Inl (FileNotFoundError name)
      | Some (JsonScoreLists ps) \<Rightarrow> Inr (dict_of_pairs ps)
      | Some _ \<Rightarrow> Inl (InputFormatError name), fs))"

definition load_scores :: "string \<Rightarrow> rat dict run" where
  "load_scores name = (\<lambda>fs.
     (case fs name of
        None \<Rightarrow> Inl (FileNotFoundError name)
      | Some (JsonScores ps) \<Rightarrow> Inr (dict_of_pairs ps)
      | Some _ \<Rightarrow> Inl (InputFormatError name), fs))"

text \<open>The checks on the argument combination, before any processing.\<close>

definition no_files :: "string list option \<Rightarrow> bool" where
  "no_files input = (input = None \<or> input = Some [])"

definition sanity_check :: "args \<Rightarrow> error + unit" where
  "sanity_check a =
     (case run_mode a of
        RunAll \<Rightarrow>
          if no_files (input_files a) then Inl (UsageError ''-d is required when -a is set'')
          else Inr ()
      | Checkpoint c \<Rightarrow>
          if c = C2 \<and> no_files (input_files a)
          then Inl (UsageError ''-d is required when running -c 2 or -c 3'')
          else if input_json a = None then Inl (UsageError ''-j is required when -c is set'')
          else if test_identifier a = None \<or> test_identifier a = Some []
          then Inl (UsageError ''-i is required when -c is set'')
          else Inr ())"

definition run_identifier :: "env \<Rightarrow> args \<Rightarrow> string" where
  "run_identifier e a =
     (case test_identifier a of
        None \<Rightarrow> now e
      | Some ident \<Rightarrow> if ident = [] then now e else ident)"

text \<open>
  \<open>program_list\<close> and the reads of its entries 0 to 3 for the column names; the same
  reads of \<open>db_list\<close>, which is \<open>None\<close> when \<open>-d\<close> was not given.
\<close>

definition first_four :: "string list \<Rightarrow> error + string \<times> string \<times> string \<times> string" where
  "first_four xs =
     bind_sum (nth_py xs 0) (\<lambda>x1. bind_sum (nth_py xs 1) (\<lambda>x2.
     bind_sum (nth_py xs 2) (\<lambda>x3. bind_sum (nth_py xs 3) (\<lambda>x4. Inr (x1, x2, x3, x4)))))"

definition program_list :: "args \<Rightarrow> error + program_names" where
  "program_list a =
     (case program_names a of
        None \<Rightarrow> Inr (''Program_1'', ''Program_2'', ''Program_3'', ''Program_4'')
      | Some names \<Rightarrow>
          if names = [] then Inr (''Program_1'', ''Program_2'', ''Program_3'', ''Program_4'')
          else first_four names)"

definition db_list :: "args \<Rightarrow> error + string \<times> string \<times> string \<times> string" where
  "db_list a = (case input_files a of None \<Rightarrow> Inl TypeError | Some files \<Rightarrow> first_four files)"

text \<open>\<open>str\<close> of an integer.\<close>

fun str_nat :: "nat \<Rightarrow> string" where
  "str_nat n = (if n < 10 then [char_of (48 + n)] else str_nat (n div 10) @ [char_of (48 + n mod 10)])"

definition str_int :: "int \<Rightarrow> string" where
  "str_int i = (if i < 0 then ''-'' @ str_nat (nat (- i)) else str_nat (nat i))"

declare str_nat.simps [simp del]

definition membership_results :: "args \<Rightarrow> string" where
  "membership_results a = out_name a @ ''__'' @ str_int (membership_percent a) @ ''.txt''"

text \<open>
  The stage functions write their result to a checkpoint file before they return it;
  the comparator and the aggregator raise before they write.
\<close>

definition checkpointed :: "string \<Rightarrow> string \<Rightarrow> ('a \<Rightarrow> file_content) \<Rightarrow> 'a \<Rightarrow> 'a run" where
  "checkpointed prefix ident wrap result =
     bind_run (dump (prefix @ ident @ ''.json'') (wrap result)) (\<lambda>_. ret result)"

definition data_2_pandas :: "string \<Rightarrow> string \<Rightarrow> string \<Rightarrow> string
    \<Rightarrow> (dataframe \<times> cluster_dict \<times> dataframe \<times> cluster_dict
        \<times> dataframe \<times> cluster_dict \<times> dataframe \<times> cluster_dict) run" where
  "data_2_pandas prog1_input prog2_input prog3_input prog4_input =
     bind_run (load_lists prog1_input) (\<lambda>prog1_dict.
     bind_run (load_lists prog2_input) (\<lambda>prog2_dict.
     bind_run (load_lists prog3_input) (\<lambda>prog3_dict.
     bind_run (load_lists prog4_input) (\<lambda>prog4_dict.
     ret (to_df prog1_dict, prog1_dict, to_df prog2_dict, prog2_dict,
          to_df prog3_dict, prog3_dict, to_df prog4_dict, prog4_dict)))))"

definition create_prot_dict_run :: "env \<Rightarrow> string
    \<Rightarrow> dataframe \<Rightarrow> dataframe \<Rightarrow> dataframe \<Rightarrow> dataframe \<Rightarrow> membership_record dict run" where
  "create_prot_dict_run e ident prog1_df prog2_df prog3_df prog4_df =
     checkpointed ''prot_dict_'' ident JsonLists
       (create_prot_dict (set_iter e) prog1_df prog2_df prog3_df prog4_df)"

definition filter_prot_dict_run :: "string \<Rightarrow> membership_record dict \<Rightarrow> membership_record dict run" where
  "filter_prot_dict_run ident prot_dict =
     checkpointed ''filt_prot_dict_'' ident JsonLists (filter_prot_dict prot_dict)"

definition membership_test_run :: "program_names \<Rightarrow> string \<Rightarrow> membership_record dict
    \<Rightarrow> cluster_dict \<Rightarrow> cluster_dict \<Rightarrow> cluster_dict \<Rightarrow> cluster_dict \<Rightarrow> rat list dict run" where
  "membership_test_run pl ident filt_prot_dict prog1_dict prog2_dict prog3_dict prog4_dict =
     bind_run (lift (membership_test pl filt_prot_dict prog1_dict prog2_dict prog3_dict prog4_dict))
       (checkpointed ''compare_OG_dict_'' ident JsonScoreLists)"

definition avg_membership_scores_run :: "string \<Rightarrow> rat list dict \<Rightarrow> rat dict run" where
  "avg_membership_scores_run ident comparison_dict =
     bind_run (lift (avg_membership_scores comparison_dict))
       (checkpointed ''og_score_dict_'' ident JsonScores)"

text \<open>Part 3 of the program: the complete run and the runs from a checkpoint.\<close>

definition load_cluster_dicts :: "string \<times> string \<times> string \<times> string
    \<Rightarrow> (cluster_dict \<times> cluster_dict \<times> cluster_dict \<times> cluster_dict) run" where
  "load_cluster_dicts inputs = (case inputs of (prog1_input, prog2_input, prog3_input, prog4_input) \<Rightarrow>
     bind_run (load_lists prog1_input) (\<lambda>prog1_dict.
     bind_run (load_lists prog2_input) (\<lambda>prog2_dict.
     bind_run (load_lists prog3_input) (\<lambda>prog3_dict.
     bind_run (load_lists prog4_input) (\<lambda>prog4_dict.
     ret (prog1_dict, prog2_dict, prog3_dict, prog4_dict))))))"

definition run_all :: "env \<Rightarrow> args \<Rightarrow> program_names \<Rightarrow> rat dict run" where
  "run_all e a pl =
     bind_run (lift (db_list a)) (\<lambda>(prog1_input, prog2_input, prog3_input, prog4_input).
     bind_run (data_2_pandas prog1_input prog2_input prog3_input prog4_input)
       (\<lambda>(prog1_df, prog1_dict, prog2_df, prog2_dict, prog3_df, prog3_dict, prog4_df, prog4_dict).
     bind_run (create_prot_dict_run e (run_identifier e a) prog1_df prog2_df prog3_df prog4_df) (\<lambda>prot_dict.
     bind_run (filter_prot_dict_run (run_identifier e a) prot_dict) (\<lambda>filt_prot_dict.
     bind_run (membership_test_run pl (run_identifier e a) filt_prot_dict
                 prog1_dict prog2_dict prog3_dict prog4_dict) (\<lambda>comparison_dict.
     bind_run (avg_membership_scores_run (run_identifier e a) comparison_dict) (\<lambda>og_score_dict.
     ret (threshold_test (membership_percent a) og_score_dict)))))))"

definition input_json_name :: "args \<Rightarrow> string run" where
  "input_json_name a = lift (case input_json a of None \<Rightarrow> Inl TypeError | Some name \<Rightarrow> Inr name)"

definition run_checkpoint :: "env \<Rightarrow> args \<Rightarrow> program_names \<Rightarrow> checkpoint \<Rightarrow> rat dict run" where
  "run_checkpoint e a pl c =
     (case c of
        C2 \<Rightarrow>
          bind_run (lift (db_list a)) (\<lambda>inputs.
          bind_run (input_json_name a) (\<lambda>json_file.
          bind_run (load_lists json_file) (\<lambda>prot_dict.
          bind_run (load_cluster_dicts inputs) (\<lambda>(prog1_dict, prog2_dict, prog3_dict, prog4_dict).
          bind_run (filter_prot_dict_run (run_identifier e a) prot_dict) (\<lambda>filt_prot_dict.
          bind_run (membership_test_run pl (run_identifier e a) filt_prot_dict
                      prog1_dict prog2_dict prog3_dict prog4_dict) (\<lambda>comparison_dict.
          bind_run (avg_membership_scores_run (run_identifier e a) comparison_dict) (\<lambda>og_score_dict.
          ret (threshold_test (membership_percent a) og_score_dict))))))))
      | C3 \<Rightarrow>
          bind_run (lift (db_list a)) (\<lambda>inputs.
          bind_run (input_json_name a) (\<lambda>json_file.
          bind_run (load_lists json_file) (\<lambda>filt_prot_dict.
          bind_run (load_cluster_dicts inputs) (\<lambda>(prog1_dict, prog2_dict, prog3_dict, prog4_dict).
          bind_run (membership_test_run pl (run_identifier e a) filt_prot_dict
                      prog1_dict prog2_dict prog3_dict prog4_dict) (\<lambda>comparison_dict.
          bind_run (avg_membership_scores_run (run_identifier e a) comparison_dict) (\<lambda>og_score_dict.
          ret (threshold_test (membership_percent a) og_score_dict)))))))
      | C4 \<Rightarrow>
          bind_run (input_json_name a) (\<lambda>json_file.
          bind_run (load_score_lists json_file) (\<lambda>comparison_dict.
          bind_run (avg_membership_scores_run (run_identifier e a) comparison_dict) (\<lambda>og_score_dict.
          ret (threshold_test (membership_percent a) og_score_dict))))
      | C5 \<Rightarrow>
          bind_run (input_json_name a) (\<lambda>json_file.
          bind_run (load_scores json_file) (\<lambda>og_score_dict.
          ret (threshold_test (membership_percent a) og_score_dict))))"

text \<open>Part 4: the report. \<open>key.replace("_", " ")\<close> replaces every underscore.\<close>

definition key_clean :: "string \<Rightarrow> string" where
  "key_clean key = map (\<lambda>c. if c = CHR ''_'' then CHR '' '' else c) key"

definition newline :: string where
  "newline = [CHR 0x0A]"

definition report_line :: "env \<Rightarrow> string \<times> rat \<Rightarrow> string" where
  "report_line e entry = (case entry of (key, score) \<Rightarrow>
     ''For the '' @ key_clean key @ '' comparison, the average score value is: ''
       @ str_float e score @ newline)"

definition report :: "env \<Rightarrow> int \<Rightarrow> rat dict \<Rightarrow> string" where
  "report e percent threshold_dict =
     (if threshold_dict = []
      then ''The given threshold value of '' @ str_int percent
             @ ''% is too high. No OG comparisons met this criteria.''
      else ''The orthologous clustering similarity comparisons that met the desired threshold value of ''
             @ str_int percent @ ''% are listed below:'' @ newline @ newline
             @ concat (map (report_line e) threshold_dict))"

definition main :: "env \<Rightarrow> args \<Rightarrow> unit run" where
  "main e a =
     bind_run (lift (sanity_check a)) (\<lambda>_.
     bind_run (lift (program_list a)) (\<lambda>pl.
     bind_run (case run_mode a of RunAll \<Rightarrow> run_all e a pl | Checkpoint c \<Rightarrow> run_checkpoint e a pl c)
       (\<lambda>threshold_dict.
     dump (membership_results a) (Text (report e (membership_percent a) threshold_dict)))))"

section \<open>Notions used in the statements\<close>

text \<open>
  The proteins a program clustered, and what it means for a slot to hold a cluster id of
  the program for a protein: the id of a cluster whose member list contains the protein.
\<close>

definition members :: "cluster_dict \<Rightarrow> string set" where
  "members prog_dict = set (concat (map snd prog_dict))"

definition holds_cluster_of :: "cluster_dict \<Rightarrow> string \<Rightarrow> string \<Rightarrow> bool" where
  "holds_cluster_of prog_dict prot slot = (\<exists>(og, L) \<in> set prog_dict. slot = og \<and> prot \<in> set L)"

text \<open>
  A slot resolves when it is the sentinel or a key of its program's cluster mapping; a
  record resolves when its four slots do.
\<close>

definition slot_ok :: "cluster_dict \<Rightarrow> string \<Rightarrow> bool" where
  "slot_ok prog_dict og = (og = ''-'' \<or> og \<in> fst ` set prog_dict)"

definition record_ok :: "cluster_dict \<Rightarrow> cluster_dict \<Rightarrow> cluster_dict \<Rightarrow> cluster_dict
    \<Rightarrow> membership_record \<Rightarrow> bool" where
  "record_ok d1 d2 d3 d4 r = (slot_ok d1 (r ! 0) \<and> slot_ok d2 (r ! 1) \<and> slot_ok d3 (r ! 2) \<and> slot_ok d4 (r ! 3))"

text \<open>
  The files a run writes after the checkpoint-2 file: the checkpoints 3, 4 and 5 and the
  report.
\<close>

definition outputs :: "env \<Rightarrow> args \<Rightarrow> string set" where
  "outputs e a = {''filt_prot_dict_'' @ run_identifier e a @ ''.json'',
                  ''compare_OG_dict_'' @ run_identifier e a @ ''.json'',
                  ''og_score_dict_'' @ run_identifier e a @ ''.json'',
                  membership_results a}"

text \<open>
  The arguments of the run that resumes a complete run from its checkpoint 2: \<open>-c 2\<close>,
  the checkpoint-2 file of that run as \<open>-j\<close>, its identifier as \<open>-i\<close>, everything else
  as before.
\<close>

definition resume_args :: "env \<Rightarrow> args \<Rightarrow> args" where
  "resume_args e a = a\<lparr>run_mode := Checkpoint C2,
                          input_json := Some (''prot_dict_'' @ run_identifier e a @ ''.json''),
                          test_identifier := Some (run_identifier e a)\<rparr>"

text \<open>
  The end-to-end example of the specification: four programs with the cluster \<open>OG1\<close> of
  \<open>p1\<close>, \<open>p2\<close>, \<open>p3\<close>; program 1 also has \<open>p4\<close>. Default program names,
  threshold 50.
\<close>

definition example_env :: env where
  "example_env = \<lparr>set_iter = remdups, str_float = (\<lambda>score. if score = 1 then ''1.0'' else ''0.5''),
                   now = ''04-11-2026--120000''\<rparr>"

definition example_args :: args where
  "example_args = \<lparr>run_mode = RunAll, input_json = None, test_identifier = Some ''t1'',
                    membership_percent = 50, out_name = ''OG_membership_results_'',
                    input_files = Some [''a.json'', ''b.json'', ''c.json'', ''d.json''],
                    program_names = None\<rparr>"

definition example_fs :: fs where
  "example_fs = [''a.json'' \<mapsto> JsonLists [(''OG1'', [''p1'', ''p2'', ''p3'']), (''OG2'', [''p4''])],
                ''b.json'' \<mapsto> JsonLists [(''OG1'', [''p1'', ''p2'', ''p3''])],
                ''c.json'' \<mapsto> JsonLists [(''OG1'', [''p1'', ''p2'', ''p3''])],
                ''d.json'' \<mapsto> JsonLists [(''OG1'', [''p1'', ''p2'', ''p3''])]]"

section \<open>Notions used in the proofs\<close>

text \<open>
  Invariants of the loops of \<open>find_longest_match\<close>, the measure of the
  \<open>while queue\<close> loop, and the sum of the block sizes against the spans of the regions.
\<close>

definition row_inv :: "nat \<Rightarrow> nat \<Rightarrow> nat \<Rightarrow> nat \<Rightarrow> (nat \<rightharpoonup> nat) \<Rightarrow> bool" where
  "row_inv alo blo bhi n j2len =
     (\<forall>j v. j2len j = Some v \<longrightarrow> blo \<le> j \<and> j < bhi \<and> v \<le> j + 1 - blo \<and> v \<le> n - alo)"

definition best_inv :: "nat \<Rightarrow> nat \<Rightarrow> nat \<Rightarrow> nat \<Rightarrow> match \<Rightarrow> bool" where
  "best_inv alo ahi blo bhi m =
     (case m of (i, j, k) \<Rightarrow> alo \<le> i \<and> blo \<le> j \<and> (k = 0 \<longrightarrow> i = alo \<and> j = blo)
        \<and> (0 < k \<longrightarrow> i + k \<le> ahi \<and> j + k \<le> bhi))"

definition region_weight :: "region \<Rightarrow> nat" where
  "region_weight r = (case r of (alo, ahi, blo, bhi) \<Rightarrow> 2 * (ahi - alo) + 1)"

definition size_sum :: "match list \<Rightarrow> nat" where
  "size_sum blocks = sum_list (map (\<lambda>(i, j, k). k) blocks)"

definition span_a :: "region \<Rightarrow> nat" where
  "span_a r = (case r of (alo, ahi, blo, bhi) \<Rightarrow> ahi - alo)"

definition span_b :: "region \<Rightarrow> nat" where
  "span_b r = (case r of (alo, ahi, blo, bhi) \<Rightarrow> bhi - blo)"

text \<open>
  \<open>diag_run a m\<close> is the length of the run of elements of \<open>a\<close> that are not popular
  and that ends at position \<open>m\<close>; \<open>run_before a k\<close> is the run that ends just before
  position \<open>k\<close>. \<open>diag_inv\<close> is the invariant of the scan of a list against itself.
\<close>

fun diag_run :: "'a list \<Rightarrow> nat \<Rightarrow> nat" where
  "diag_run a 0 = (if popular a (a ! 0) then 0 else 1)"
| "diag_run a (Suc m) = (if popular a (a ! Suc m) then 0 else diag_run a m + 1)"

definition run_before :: "'a list \<Rightarrow> nat \<Rightarrow> nat" where
  "run_before a k = (case k of 0 \<Rightarrow> 0 | Suc m \<Rightarrow> diag_run a m)"

definition diag_inv :: "'a list \<Rightarrow> nat \<Rightarrow> match \<times> (nat \<rightharpoonup> nat) \<Rightarrow> bool" where
  "diag_inv a n st = (case st of ((bi, bj, bs), j2len) \<Rightarrow>
     bi = bj \<and> (\<forall>m<n. diag_run a m \<le> bs)
     \<and> (\<forall>j. j2lenget j2len j \<le> run_before a j \<and> j2lenget j2len j \<le> run_before a n)
     \<and> j2lenget j2len n = run_before a n)"

text \<open>
  Every score of a dictionary of score lists lies between 0 and 1; how a computation
  ended; the condition under which one block of the comparator's loop body returns.
\<close>

definition scores_in_range :: "rat list dict \<Rightarrow> bool" where
  "scores_in_range cd = (\<forall>(key, scores) \<in> set cd. \<forall>score \<in> set scores. 0 \<le> score \<and> score \<le> 1)"

definition succeeds :: "error + 'a \<Rightarrow> bool" where
  "succeeds m = (case m of Inl e \<Rightarrow> False | Inr v \<Rightarrow> True)"

definition key_error :: "error + 'a \<Rightarrow> bool" where
  "key_error m = (case m of Inl (KeyError og) \<Rightarrow> True | _ \<Rightarrow> False)"

definition block_ok :: "nat \<Rightarrow> nat \<Rightarrow> cluster_dict \<Rightarrow> nat \<Rightarrow> cluster_dict \<Rightarrow> nat \<Rightarrow> membership_record \<Rightarrow> bool" where
  "block_ok x y dict1 s1 dict2 s2 r =
     (r ! x \<noteq> ''-'' \<and> r ! y \<noteq> ''-'' \<longrightarrow> r ! s1 \<in> fst ` set dict1 \<and> r ! s2 \<in> fst ` set dict2)"

text \<open>
  After the cluster files are read, a run only writes: its result does not depend on the
  files, and what it writes is a fixed set of files with fixed contents.
\<close>

definition writes :: "'a run \<Rightarrow> error + 'a \<Rightarrow> fs \<Rightarrow> string set \<Rightarrow> bool" where
  "writes m res w N = ((\<forall>g. m g = (res, g ++ w)) \<and> dom w \<subseteq> N)"

definition write_only :: "'a run \<Rightarrow> string set \<Rightarrow> bool" where
  "write_only m N = (\<exists>res w. writes m res w N)"

text \<open>The part of a run that the complete run and the run from checkpoint 2 share.\<close>

definition tail_from_prot :: "env \<Rightarrow> args \<Rightarrow> program_names \<Rightarrow> membership_record dict
    \<Rightarrow> cluster_dict \<Rightarrow> cluster_dict \<Rightarrow> cluster_dict \<Rightarrow> cluster_dict \<Rightarrow> unit run" where
  "tail_from_prot e a pl prot_dict d1 d2 d3 d4 =
     bind_run
       (bind_run (filter_prot_dict_run (run_identifier e a) prot_dict) (\<lambda>filt_prot_dict.
        bind_run (membership_test_run pl (run_identifier e a) filt_prot_dict d1 d2 d3 d4) (\<lambda>comparison_dict.
        bind_run (avg_membership_scores_run (run_identifier e a) comparison_dict) (\<lambda>og_score_dict.
        ret (threshold_test (membership_percent a) og_score_dict)))))
       (\<lambda>threshold_dict.
          dump (membership_results a) (Text (report e (membership_percent a) threshold_dict)))"

section \<open>The sequence matcher: bounds of a match, termination\<close>

declare extend_left.simps [simp del] extend_right.simps [simp del]

text \<open>
  The invariants of the two loops of \<open>find_longest_match\<close>: the entries of \<open>j2len\<close>
  are lengths of runs that end inside the region, and the best match lies inside the
  region. They hold for every call, so \<open>i-k+1\<close> and \<open>j-k+1\<close> are never negative.
\<close>

lemma j2lenget_le:
  assumes "row_inv alo blo bhi i j2len" "blo \<le> j"
  shows "j2lenget j2len j \<le> j - blo \<and> j2lenget j2len j \<le> i - alo"
proof (cases "j = 0")
  case True
  then show ?thesis by (simp add: j2lenget_def)
next
  case False
  show ?thesis
  proof (cases "j2len (j - 1)")
    case None
    then show ?thesis using False by (simp add: j2lenget_def)
  next
    case (Some v)
    then have "v \<le> (j - 1) + 1 - blo \<and> v \<le> i - alo"
      using assms(1) unfolding row_inv_def by blast
    then show ?thesis using False Some by (simp add: j2lenget_def)
  qed
qed

lemma scan_row_inv:
  assumes "row_inv alo blo bhi i j2len" "alo \<le> i" "i < ahi"
    and "best_inv alo ahi blo bhi best" "row_inv alo blo bhi (Suc i) new"
    and "scan_row j2len i blo bhi js (best, new) = (best', new')"
  shows "best_inv alo ahi blo bhi best' \<and> row_inv alo blo bhi (Suc i) new'"
  using assms(4-)
proof (induction js arbitrary: best new)
  case Nil
  then show ?case by simp
next
  case (Cons j js)
  obtain bi bj bs where best: "best = (bi, bj, bs)" by (cases best)
  show ?case
  proof (cases "j < blo")
    case True
    with Cons best show ?thesis by simp
  next
    case lo: False
    show ?thesis
    proof (cases "bhi \<le> j")
      case True
      with Cons lo best show ?thesis by simp
    next
      case hi: False
      define k where "k = j2lenget j2len j + 1"
      have kb: "k \<le> j + 1 - blo" "k \<le> Suc i - alo" "0 < k"
        using j2lenget_le[OF assms(1), of j] lo assms(2) by (auto simp: k_def)
      let ?best = "if bs < k then (i + 1 - k, j + 1 - k, k) else (bi, bj, bs)"
      have b: "best_inv alo ahi blo bhi ?best"
      proof (cases "bs < k")
        case True
        have "alo \<le> i + 1 - k" "blo \<le> j + 1 - k" "i + 1 - k + k \<le> ahi" "j + 1 - k + k \<le> bhi"
          using kb lo hi assms(2,3) by linarith+
        then show ?thesis using True kb(3) by (simp add: best_inv_def)
      next
        case False
        then show ?thesis using Cons.prems(1) by (simp add: best)
      qed
      have n: "row_inv alo blo bhi (Suc i) (new(j \<mapsto> k))"
        using Cons.prems(2) kb lo hi by (auto simp: row_inv_def)
      have "scan_row j2len i blo bhi js (?best, new(j \<mapsto> k)) = (best', new')"
        using Cons.prems(3) lo hi by (cases "bs < k") (simp_all add: best k_def Let_def)
      from Cons.IH[OF b n this] show ?thesis .
    qed
  qed
qed

lemma row_inv_empty: "row_inv alo blo bhi n Map.empty"
  by (simp add: row_inv_def)

lemma scan_rows_inv:
  "best_inv alo (max alo ahi) blo bhi (fst (scan_rows a b alo ahi blo bhi))
   \<and> row_inv alo blo bhi ahi (snd (scan_rows a b alo ahi blo bhi))"
proof (induction ahi)
  case 0
  then show ?case by (simp add: scan_rows_def best_inv_def row_inv_empty)
next
  case (Suc n)
  show ?case
  proof (cases "alo \<le> n")
    case False
    then show ?thesis by (simp add: scan_rows_def best_inv_def row_inv_empty)
  next
    case True
    obtain best j2len where st: "scan_rows a b alo n blo bhi = (best, j2len)"
      by (cases "scan_rows a b alo n blo bhi")
    obtain best' new' where st': "scan_rows a b alo (Suc n) blo bhi = (best', new')"
      by (cases "scan_rows a b alo (Suc n) blo bhi")
    have step: "scan_row j2len n blo bhi (b2j_get b (a ! n)) (best, Map.empty) = (best', new')"
      using st st' True by (simp add: scan_rows_def)
    have "best_inv alo (max alo n) blo bhi best" using Suc st by simp
    then have b: "best_inv alo (Suc n) blo bhi best"
      using True unfolding best_inv_def max_def by (cases best) (simp, arith)
    have r: "row_inv alo blo bhi n j2len" using Suc st by simp
    from scan_row_inv[OF r True _ b row_inv_empty step]
    show ?thesis using st' True by (simp add: max_def)
  qed
qed

lemma extend_left_inv:
  "best_inv alo ahi blo bhi m \<Longrightarrow> best_inv alo ahi blo bhi (extend_left ok a b alo blo m)"
proof (induction ok a b alo blo m rule: extend_left.induct)
  case (1 ok a b alo blo besti bestj bestsize)
  show ?case
  proof (cases "alo < besti \<and> blo < bestj \<and> ok (b ! (bestj - 1)) \<and> a ! (besti - 1) = b ! (bestj - 1)")
    case True
    have "best_inv alo ahi blo bhi (besti - 1, bestj - 1, bestsize + 1)"
      using "1.prems" True unfolding best_inv_def by simp arith
    from "1.IH"[OF True this] show ?thesis
      using True by (subst extend_left.simps) simp
  next
    case False
    show ?thesis
      by (subst extend_left.simps) (simp only: False if_False "1.prems")
  qed
qed

lemma extend_right_inv:
  "best_inv alo ahi blo bhi m \<Longrightarrow> best_inv alo ahi blo bhi (extend_right ok a b ahi bhi m)"
proof (induction ok a b ahi bhi m rule: extend_right.induct)
  case (1 ok a b ahi bhi besti bestj bestsize)
  show ?case
  proof (cases "besti + bestsize < ahi \<and> bestj + bestsize < bhi \<and> ok (b ! (bestj + bestsize))
         \<and> a ! (besti + bestsize) = b ! (bestj + bestsize)")
    case True
    have "best_inv alo ahi blo bhi (besti, bestj, bestsize + 1)"
      using "1.prems" True unfolding best_inv_def by simp
    from "1.IH"[OF True this] show ?thesis
      using True by (subst extend_right.simps) simp
  next
    case False
    show ?thesis
      by (subst extend_right.simps) (simp only: False if_False "1.prems")
  qed
qed

lemma best_inv_max:
  "best_inv alo (max alo ahi) blo bhi m \<Longrightarrow> best_inv alo ahi blo bhi m"
  unfolding best_inv_def max_def by (cases m) (simp split: if_splits, arith)

lemma find_longest_match_bounds:
  assumes "find_longest_match a b alo ahi blo bhi = (i, j, k)"
  shows "alo \<le> i \<and> blo \<le> j \<and> (0 < k \<longrightarrow> i + k \<le> ahi \<and> j + k \<le> bhi)"
proof -
  have "best_inv alo ahi blo bhi (fst (scan_rows a b alo ahi blo bhi))"
    using scan_rows_inv[of alo ahi blo bhi a b] best_inv_max by blast
  then have "best_inv alo ahi blo bhi (find_longest_match a b alo ahi blo bhi)"
    unfolding find_longest_match_def
    by (intro extend_right_inv extend_left_inv)
  then show ?thesis using assms by (simp add: best_inv_def)
qed

text \<open>
  The \<open>while queue\<close> loop ends: a region is replaced by at most two regions that
  together are shorter by the length of the match.
\<close>

lemma matching_loop_decreases:
  assumes "(i, jk) = find_longest_match a b alo ahi blo bhi" "(j, k) = jk" "k \<noteq> 0"
  shows "sum_list (map region_weight
           ((if i + k < ahi \<and> j + k < bhi then [(i + k, ahi, j + k, bhi)] else [])
            @ (if alo < i \<and> blo < j then [(alo, i, blo, j)] else []) @ queue))
         < sum_list (map region_weight ((alo, ahi, blo, bhi) # queue))"
proof -
  have "find_longest_match a b alo ahi blo bhi = (i, j, k)" using assms by simp
  from find_longest_match_bounds[OF this] assms(3)
  have "alo \<le> i" "i + k \<le> ahi" "0 < k" by auto
  then show ?thesis by (simp add: region_weight_def) arith
qed

termination matching_loop
  apply (relation "measure (\<lambda>(a, b, queue, blocks). sum_list (map region_weight queue))")
    apply simp
   apply (simp only: in_measure prod.case)
   apply (rule matching_loop_decreases; assumption)
  apply (simp add: region_weight_def)
  done

section \<open>The sequence matcher: the ratio lies between 0 and 1\<close>

lemma size_sum_append: "size_sum (xs @ ys) = size_sum xs + size_sum ys"
  by (simp add: size_sum_def)

lemma matching_loop_bound_a:
  "size_sum (matching_loop a b queue blocks) \<le> size_sum blocks + sum_list (map span_a queue)"
proof (induction a b queue blocks rule: matching_loop.induct)
  case (1 a b blocks)
  then show ?case by simp
next
  case (2 a b alo ahi blo bhi queue blocks)
  obtain i j k where m: "find_longest_match a b alo ahi blo bhi = (i, j, k)"
    by (cases "find_longest_match a b alo ahi blo bhi")
  note bounds = find_longest_match_bounds[OF m]
  show ?case
  proof (cases "k = 0")
    case True
    from 2(2)[OF m[symmetric] refl] True
    have "size_sum (matching_loop a b queue blocks) \<le> size_sum blocks + sum_list (map span_a queue)"
      by simp
    then show ?thesis using m True by simp
  next
    case False
    let ?q = "(if i + k < ahi \<and> j + k < bhi then [(i + k, ahi, j + k, bhi)] else [])
              @ (if alo < i \<and> blo < j then [(alo, i, blo, j)] else []) @ queue"
    have ih: "size_sum (matching_loop a b ?q (blocks @ [(i, j, k)]))
              \<le> size_sum (blocks @ [(i, j, k)]) + sum_list (map span_a ?q)"
      using 2(1)[OF m[symmetric] refl] False by simp
    have "k + sum_list (map span_a ?q) \<le> sum_list (map span_a ((alo, ahi, blo, bhi) # queue))"
      using bounds False by (simp add: span_a_def) arith
    then show ?thesis using ih m False by (simp add: size_sum_append size_sum_def)
  qed
qed

lemma matching_loop_bound_b:
  "size_sum (matching_loop a b queue blocks) \<le> size_sum blocks + sum_list (map span_b queue)"
proof (induction a b queue blocks rule: matching_loop.induct)
  case (1 a b blocks)
  then show ?case by simp
next
  case (2 a b alo ahi blo bhi queue blocks)
  obtain i j k where m: "find_longest_match a b alo ahi blo bhi = (i, j, k)"
    by (cases "find_longest_match a b alo ahi blo bhi")
  note bounds = find_longest_match_bounds[OF m]
  show ?case
  proof (cases "k = 0")
    case True
    from 2(2)[OF m[symmetric] refl] True
    have "size_sum (matching_loop a b queue blocks) \<le> size_sum blocks + sum_list (map span_b queue)"
      by simp
    then show ?thesis using m True by simp
  next
    case False
    let ?q = "(if i + k < ahi \<and> j + k < bhi then [(i + k, ahi, j + k, bhi)] else [])
              @ (if alo < i \<and> blo < j then [(alo, i, blo, j)] else []) @ queue"
    have ih: "size_sum (matching_loop a b ?q (blocks @ [(i, j, k)]))
              \<le> size_sum (blocks @ [(i, j, k)]) + sum_list (map span_b ?q)"
      using 2(1)[OF m[symmetric] refl] False by simp
    have "k + sum_list (map span_b ?q) \<le> sum_list (map span_b ((alo, ahi, blo, bhi) # queue))"
      using bounds False by (simp add: span_b_def) arith
    then show ?thesis using ih m False by (simp add: size_sum_append size_sum_def)
  qed
qed

lemma size_sum_sort: "size_sum (sort blocks) = size_sum blocks"
proof -
  have "sum_mset (image_mset (\<lambda>(i, j, k). k) (mset (sort blocks)))
        = sum_mset (image_mset (\<lambda>(i, j, k). k) (mset blocks))" by simp
  then show ?thesis unfolding size_sum_def by (metis mset_map sum_mset_sum_list)
qed

lemma collapse_fold_sum:
  "fold collapse_step blocks ((i1, j1, k1), na) = ((i, j, k), na')
   \<Longrightarrow> k + size_sum na' = k1 + size_sum na + size_sum blocks"
proof (induction blocks arbitrary: i1 j1 k1 na)
  case Nil
  then show ?case by (simp add: size_sum_def)
next
  case (Cons x xs)
  obtain i2 j2 k2 where x: "x = (i2, j2, k2)" by (cases x)
  show ?case
  proof (cases "i1 + k1 = i2 \<and> j1 + k1 = j2")
    case True
    then have "fold collapse_step xs ((i1, j1, k1 + k2), na) = ((i, j, k), na')"
      using Cons.prems x by simp
    from Cons.IH[OF this] show ?thesis by (simp add: x size_sum_def)
  next
    case False
    then have "fold collapse_step xs ((i2, j2, k2), if k1 \<noteq> 0 then na @ [(i1, j1, k1)] else na)
               = ((i, j, k), na')"
      using Cons.prems x by auto
    from Cons.IH[OF this] show ?thesis by (auto simp: x size_sum_def)
  qed
qed

lemma size_sum_collapse: "size_sum (collapse blocks) = size_sum blocks"
proof -
  obtain i j k na where f: "fold collapse_step blocks ((0, 0, 0), []) = ((i, j, k), na)"
    by (metis prod.exhaust)
  from collapse_fold_sum[OF f] have "k + size_sum na = size_sum blocks" by (simp add: size_sum_def)
  then show ?thesis unfolding collapse_def f by (auto simp: size_sum_def)
qed

lemma matches_eq: "matches a b = size_sum (matching_loop a b [(0, length a, 0, length b)] [])"
  unfolding matches_def get_matching_blocks_def
  using size_sum_collapse size_sum_sort by (simp add: size_sum_def[symmetric] size_sum_append)

lemma matches_le: "matches a b \<le> length a" "matches a b \<le> length b"
  using matching_loop_bound_a[of a b "[(0, length a, 0, length b)]" "[]"]
        matching_loop_bound_b[of a b "[(0, length a, 0, length b)]" "[]"]
  by (simp_all add: matches_eq span_a_def span_b_def size_sum_def)

lemma ratio_bounds: "0 \<le> ratio a b \<and> ratio a b \<le> 1"
proof -
  have "2 * matches a b \<le> length a + length b" using matches_le[of a b] by simp
  then have "2 * of_nat (matches a b) \<le> (of_nat (length a + length b) :: rat)"
    by (metis of_nat_le_iff of_nat_mult of_nat_numeral)
  then show ?thesis unfolding ratio_def calculate_ratio_def
    by (auto simp: divide_le_eq_1)
qed

section \<open>The sequence matcher: equal lists have ratio 1\<close>

text \<open>
  When both lists are the same list, the longest match found by the scan lies on the
  diagonal: \<open>diag_run a m\<close> is the length of the run of elements that are not popular
  and that ends at position \<open>m\<close>, and the scan meets a run on the diagonal before it
  meets a run of the same length elsewhere. The extension loops then stretch the match
  over the whole list, popular elements included.
\<close>

lemma diag_run_eq: "diag_run a m = (if popular a (a ! m) then 0 else run_before a m + 1)"
  by (cases m) (simp_all add: run_before_def)

lemma run_before_Suc: "run_before a (Suc m) = diag_run a m"
  by (simp add: run_before_def)

lemma scan_row_snd:
  assumes "\<forall>j\<in>set js. j < bhi"
  shows "snd (scan_row j2len i 0 bhi js (best, new))
         = (\<lambda>j. if j \<in> set js then Some (j2lenget j2len j + 1) else new j)"
  using assms
proof (induction js arbitrary: best new)
  case Nil
  then show ?case by simp
next
  case (Cons j js)
  obtain bi bj bs where best: "best = (bi, bj, bs)" by (cases best)
  have j: "j < bhi" and rest: "\<forall>j\<in>set js. j < bhi" using Cons.prems by auto
  show ?case
    using Cons.IH[OF rest] j by (auto simp: best Let_def fun_eq_iff)
qed

lemma scan_row_keep:
  assumes "\<forall>j\<in>set js. j < bhi \<and> j2lenget j2len j + 1 \<le> bs"
  shows "fst (scan_row j2len i 0 bhi js ((bi, bj, bs), new)) = (bi, bj, bs)"
  using assms
proof (induction js arbitrary: new)
  case Nil
  then show ?case by simp
next
  case (Cons j js)
  have j: "j < bhi" "\<not> bs < j2lenget j2len j + 1" and rest: "\<forall>j\<in>set js. j < bhi \<and> j2lenget j2len j + 1 \<le> bs"
    using Cons.prems by auto
  show ?case using Cons.IH[OF rest] j by (simp add: Let_def)
qed

lemma scan_row_append:
  assumes "\<forall>j\<in>set js1. j < bhi"
  shows "scan_row j2len i 0 bhi (js1 @ js2) st = scan_row j2len i 0 bhi js2 (scan_row j2len i 0 bhi js1 st)"
  using assms
proof (induction js1 arbitrary: st)
  case Nil
  then show ?case by simp
next
  case (Cons j js)
  obtain bi bj bs new where st: "st = ((bi, bj, bs), new)" by (metis prod.exhaust)
  have j: "j < bhi" and rest: "\<forall>j\<in>set js. j < bhi" using Cons.prems by auto
  show ?case using Cons.IH[OF rest] j by (simp add: st Let_def)
qed

lemma indices_split:
  assumes "i < length a"
  shows "indices a (a ! i) = filter (\<lambda>j. a ! j = a ! i) [0..<i] @ [i]
                              @ filter (\<lambda>j. a ! j = a ! i) [Suc i..<length a]"
proof -
  have "[0..<length a] = [0..<i] @ [i..<length a]"
    using assms upt_add_eq_append[of 0 i "length a - i"] by simp
  also have "[i..<length a] = i # [Suc i..<length a]"
    using assms by (rule upt_conv_Cons)
  finally show ?thesis unfolding indices_def by simp
qed

lemma set_indices: "set (indices a x) = {j. j < length a \<and> a ! j = x}"
  by (auto simp: indices_def)

lemma scan_step_diag:
  assumes inv: "diag_inv a i st" and i: "i < length a"
  shows "diag_inv a (Suc i) (scan_step a a 0 (length a) i st)"
proof -
  obtain bi bj bs j2len where st: "st = ((bi, bj, bs), j2len)" by (metis prod.exhaust)
  have I1: "bi = bj" and I2: "\<And>m. m < i \<Longrightarrow> diag_run a m \<le> bs"
    and I3: "\<And>j. j2lenget j2len j \<le> run_before a j" "\<And>j. j2lenget j2len j \<le> run_before a i"
    and I4: "j2lenget j2len i = run_before a i"
    using inv by (auto simp: diag_inv_def st)
  show ?thesis
  proof (cases "popular a (a ! i)")
    case True
    have d0: "diag_run a i = 0" using True by (simp add: diag_run_eq)
    have "\<And>m. m < Suc i \<Longrightarrow> diag_run a m \<le> bs"
      using I2 d0 less_Suc_eq by auto
    then show ?thesis
      using True I1 d0 by (simp add: st b2j_get_def diag_inv_def j2lenget_def run_before_Suc)
  next
    case False
    define k where "k = j2lenget j2len i + 1"
    have k: "k = diag_run a i" using False I4 by (simp add: k_def diag_run_eq)
    let ?P = "\<lambda>j. a ! j = a ! i"
    let ?L = "filter ?P [0..<i]" and ?G = "filter ?P [Suc i..<length a]"
    let ?js = "indices a (a ! i)"
    have js: "?js = ?L @ [i] @ ?G" using i by (rule indices_split)
    have inr: "\<forall>j\<in>set ?js. j < length a" by (simp add: set_indices)
    have inrL: "\<forall>j\<in>set ?L. j < length a" using i by auto
    have np: "\<And>j. j \<in> set ?js \<Longrightarrow> diag_run a j = run_before a j + 1"
      using False by (simp add: set_indices diag_run_eq)
    have keepL: "\<forall>j\<in>set ?L. j < length a \<and> j2lenget j2len j + 1 \<le> bs"
    proof
      fix j assume j: "j \<in> set ?L"
      then have "j < i" "j \<in> set ?js" using i by (auto simp: set_indices)
      then have "j2lenget j2len j + 1 \<le> diag_run a j" "diag_run a j \<le> bs"
        using I3(1)[of j] np[of j] I2[of j] by simp_all
      then show "j < length a \<and> j2lenget j2len j + 1 \<le> bs" using \<open>j < i\<close> i by simp
    qed
    obtain new1 where s1: "scan_row j2len i 0 (length a) ?L ((bi, bj, bs), Map.empty) = ((bi, bj, bs), new1)"
      using scan_row_keep[OF keepL, of i bi bj Map.empty] by (metis prod.collapse)
    let ?best2 = "if bs < k then (i + 1 - k, i + 1 - k, k) else (bi, bj, bs)"
    obtain b2i b2j b2s where b2: "?best2 = (b2i, b2j, b2s)" by (metis prod.exhaust)
    have b2s: "b2s = max bs k" and b2d: "b2i = b2j" using b2 I1 by (auto split: if_splits)
    have s2: "scan_row j2len i 0 (length a) [i] ((bi, bj, bs), new1) = (?best2, new1(i \<mapsto> k))"
      using i by (simp add: k_def Let_def)
    have keepG: "\<forall>j\<in>set ?G. j < length a \<and> j2lenget j2len j + 1 \<le> b2s"
    proof
      fix j assume j: "j \<in> set ?G"
      have "j2lenget j2len j + 1 \<le> k" using I3(2)[of j] I4 by (simp add: k_def)
      then show "j < length a \<and> j2lenget j2len j + 1 \<le> b2s" using j b2s by auto
    qed
    have s3: "fst (scan_row j2len i 0 (length a) ?G ((b2i, b2j, b2s), new1(i \<mapsto> k))) = (b2i, b2j, b2s)"
      using scan_row_keep[OF keepG] .
    have inrLi: "\<forall>j\<in>set (?L @ [i]). j < length a" using i by auto
    have "scan_row j2len i 0 (length a) ?js ((bi, bj, bs), Map.empty)
          = scan_row j2len i 0 (length a) ?G ((b2i, b2j, b2s), new1(i \<mapsto> k))"
      using scan_row_append[OF inrL, of j2len i "[i] @ ?G" "((bi, bj, bs), Map.empty)"]
            scan_row_append[of "[i]" "length a" j2len i ?G "((bi, bj, bs), new1)"] i
      unfolding js s1 s2 b2 by simp
    then have fst_res: "fst (scan_row j2len i 0 (length a) ?js ((bi, bj, bs), Map.empty)) = (b2i, b2j, b2s)"
      using s3 by simp
    have snd_res: "snd (scan_row j2len i 0 (length a) ?js ((bi, bj, bs), Map.empty))
                   = (\<lambda>j. if j \<in> set ?js then Some (j2lenget j2len j + 1) else None)"
      using scan_row_snd[OF inr] by simp
    define new' where "new' = (\<lambda>j. if j \<in> set ?js then Some (j2lenget j2len j + 1) else None)"
    have res: "scan_step a a 0 (length a) i st = ((b2i, b2j, b2s), new')"
      using fst_res snd_res False
      by (simp add: st b2j_get_def new'_def prod_eq_iff)
    have J2: "\<And>m. m < Suc i \<Longrightarrow> diag_run a m \<le> b2s"
    proof -
      fix m assume "m < Suc i"
      then consider "m < i" | "m = i" by linarith
      then show "diag_run a m \<le> b2s"
      proof cases
        case 1
        then have "diag_run a m \<le> bs" by (rule I2)
        then show ?thesis using b2s by simp
      next
        case 2
        then show ?thesis using k b2s by simp
      qed
    qed
    have val: "\<And>q. q \<in> set ?js \<Longrightarrow> j2lenget j2len q + 1 \<le> run_before a (Suc q)
                                    \<and> j2lenget j2len q + 1 \<le> run_before a (Suc i)"
    proof -
      fix q assume q: "q \<in> set ?js"
      have "j2lenget j2len q + 1 \<le> diag_run a q" using I3(1)[of q] np[OF q] by simp
      moreover have "j2lenget j2len q + 1 \<le> diag_run a i" using I3(2)[of q] I4 k by (simp add: k_def)
      ultimately show "j2lenget j2len q + 1 \<le> run_before a (Suc q)
                       \<and> j2lenget j2len q + 1 \<le> run_before a (Suc i)"
        by (simp add: run_before_Suc)
    qed
    have J3: "\<And>j. j2lenget new' j \<le> run_before a j \<and> j2lenget new' j \<le> run_before a (Suc i)"
    proof -
      fix j
      show "j2lenget new' j \<le> run_before a j \<and> j2lenget new' j \<le> run_before a (Suc i)"
      proof (cases j)
        case 0
        then show ?thesis by (simp add: j2lenget_def)
      next
        case (Suc q)
        then show ?thesis using val[of q] by (simp add: j2lenget_def new'_def)
      qed
    qed
    have iin: "i \<in> set ?js" using i by (simp add: set_indices)
    have J4: "j2lenget new' (Suc i) = run_before a (Suc i)"
      using iin k by (simp add: j2lenget_def new'_def run_before_Suc k_def)
    show ?thesis unfolding res diag_inv_def using b2d J2 J3 J4 by simp
  qed
qed

lemma scan_rows_diag_prefix:
  "n \<le> length a \<Longrightarrow>
   diag_inv a n (fold (scan_step a a 0 (length a)) [0..<n] ((0, 0, 0), Map.empty))"
proof (induction n)
  case 0
  then show ?case by (simp add: diag_inv_def j2lenget_def run_before_def)
next
  case (Suc n)
  then have "diag_inv a n (fold (scan_step a a 0 (length a)) [0..<n] ((0, 0, 0), Map.empty))"
    and "n < length a" by simp_all
  from scan_step_diag[OF this] show ?case by simp
qed

lemma scan_rows_diagonal:
  "scan_rows a a 0 (length a) 0 (length a) = ((bi, bj, bs), j2len) \<Longrightarrow> bi = bj"
  using scan_rows_diag_prefix[of "length a" a]
  by (simp add: scan_rows_def diag_inv_def)

lemma extend_left_diagonal:
  "extend_left (\<lambda>elt. \<not> isbjunk elt) a a 0 0 (d, d, s) = (0, 0, s + d)"
proof (induction d arbitrary: s)
  case 0
  then show ?case by (subst extend_left.simps) simp
next
  case (Suc d)
  show ?case using Suc[of "s + 1"] by (subst extend_left.simps) (simp add: isbjunk_def)
qed

lemma extend_right_diagonal:
  "s \<le> n \<Longrightarrow> extend_right (\<lambda>elt. \<not> isbjunk elt) a a n n (0, 0, s) = (0, 0, n)"
proof (induction "n - s" arbitrary: s)
  case 0
  then show ?case by (subst extend_right.simps) simp
next
  case (Suc d)
  then have "d = n - (s + 1)" "s + 1 \<le> n" "s < n" by simp_all
  from Suc(1)[OF this(1,2)] this(3) show ?case
    by (subst extend_right.simps) (simp add: isbjunk_def)
qed

lemma extend_left_junk: "extend_left isbjunk a b alo blo m = m"
proof -
  obtain i j k where m: "m = (i, j, k)" by (cases m)
  show ?thesis unfolding m by (subst extend_left.simps) (simp add: isbjunk_def)
qed

lemma extend_right_junk: "extend_right isbjunk a b ahi bhi m = m"
proof -
  obtain i j k where m: "m = (i, j, k)" by (cases m)
  show ?thesis unfolding m by (subst extend_right.simps) (simp add: isbjunk_def)
qed

lemma find_longest_match_same:
  "find_longest_match a a 0 (length a) 0 (length a) = (0, 0, length a)"
proof -
  obtain bi bj bs j2len where r: "scan_rows a a 0 (length a) 0 (length a) = ((bi, bj, bs), j2len)"
    by (metis prod.exhaust)
  have d: "bi = bj" using r by (rule scan_rows_diagonal)
  have "best_inv 0 (length a) 0 (length a) (bi, bj, bs)"
    using scan_rows_inv[of 0 "length a" 0 "length a" a a] r by simp
  then have le: "bs + bi \<le> length a" by (cases "bs = 0") (simp_all add: best_inv_def d)
  show ?thesis
    unfolding find_longest_match_def extend_left_junk extend_right_junk r
    using le by (simp add: d extend_left_diagonal extend_right_diagonal)
qed

lemma matching_loop_same:
  "matching_loop a a [(0, length a, 0, length a)] [] = (if a = [] then [] else [(0, 0, length a)])"
  by (simp add: find_longest_match_same)

lemma matches_same: "matches a a = length a"
  unfolding matches_def get_matching_blocks_def matching_loop_same
  by (simp add: collapse_def)

lemma ratio_same: "ratio a a = 1"
  by (simp add: ratio_def calculate_ratio_def matches_same)

section \<open>Properties of dictionaries\<close>

lemma dict_set_fresh: "k \<notin> fst ` set d \<Longrightarrow> dict_set k v d = d @ [(k, v)]"
  by (induction d) auto

lemma keys_dict_set: "fst ` set (dict_set k v d) = insert k (fst ` set d)"
  by (induction d) auto

lemma set_dict_set: "set (dict_set k v d) \<subseteq> insert (k, v) (set d)"
  by (induction d) auto

lemma distinct_dict_set: "distinct (map fst d) \<Longrightarrow> distinct (map fst (dict_set k v d))"
proof (induction d)
  case Nil
  then show ?case by simp
next
  case (Cons p ps)
  have "fst p \<notin> fst ` set (dict_set k v ps)" if "fst p \<noteq> k"
    using Cons.prems that by (simp add: keys_dict_set)
  then show ?case using Cons by auto
qed

lemma map_of_dict_set: "map_of (dict_set k v d) = (map_of d)(k \<mapsto> v)"
  by (induction d) (auto simp: fun_eq_iff)

section \<open>Properties of the index filter\<close>

lemma remove_list_fold:
  "fold (\<lambda>(key, v) acc. if length (remdups v) = 2 then acc @ [key] else acc) d acc
   = acc @ map fst (filter (\<lambda>(key, v). length (remdups v) = 2) d)"
  by (induction d arbitrary: acc) (auto)

lemma remove_list_eq:
  "remove_list d = map fst (filter (\<lambda>(key, v). length (remdups v) = 2) d)"
  by (simp add: remove_list_def remove_list_fold)

lemma copy_fold_distinct:
  assumes "distinct (map fst d)" "fst ` set acc \<inter> fst ` set d = {}"
  shows "fold (\<lambda>(key, v) filt. if key \<notin> R then dict_set key v filt else filt) d acc
         = acc @ filter (\<lambda>(key, v). key \<notin> R) d"
  using assms
proof (induction d arbitrary: acc)
  case Nil
  then show ?case by simp
next
  case (Cons p ps)
  obtain k v where p: "p = (k, v)" by (cases p)
  show ?case
  proof (cases "k \<in> R")
    case True
    then show ?thesis using Cons p by auto
  next
    case False
    have fresh: "k \<notin> fst ` set acc" using Cons.prems p by auto
    have disj: "fst ` set (acc @ [(k, v)]) \<inter> fst ` set ps = {}"
      using Cons.prems p by auto
    have "distinct (map fst ps)" using Cons.prems by simp
    from Cons.IH[OF this disj] show ?thesis
      using False p by (simp add: dict_set_fresh[OF fresh])
  qed
qed

lemma filter_prot_dict_distinct_input:
  assumes "distinct (map fst d)"
  shows "filter_prot_dict d = filter (\<lambda>(key, v). length (remdups v) \<noteq> 2) d"
proof -
  have "filter_prot_dict d = filter (\<lambda>(key, v). key \<notin> set (remove_list d)) d"
    unfolding filter_prot_dict_def using copy_fold_distinct[OF assms, of "[]"] by simp
  also have "\<dots> = filter (\<lambda>(key, v). length (remdups v) \<noteq> 2) d"
  proof (rule filter_cong[OF refl])
    fix p assume pin: "p \<in> set d"
    obtain k v where p: "p = (k, v)" by (cases p)
    have "k \<in> set (remove_list d) \<longleftrightarrow> length (remdups v) = 2"
    proof
      assume "k \<in> set (remove_list d)"
      then obtain v' where "(k, v') \<in> set d" "length (remdups v') = 2"
        by (auto simp: remove_list_eq)
      moreover have "v' = v" using assms pin p calculation(1) by (meson eq_key_imp_eq_value)
      ultimately show "length (remdups v) = 2" by simp
    next
      assume "length (remdups v) = 2"
      then show "k \<in> set (remove_list d)" using pin p by (force simp: remove_list_eq)
    qed
    then show "(case p of (key, v) \<Rightarrow> key \<notin> set (remove_list d)) = (case p of (key, v) \<Rightarrow> length (remdups v) \<noteq> 2)"
      by (simp add: p)
  qed
  finally show ?thesis .
qed

lemma copy_fold_props:
  assumes "distinct (map fst acc)" "\<forall>(k, v) \<in> set acc. length (remdups v) \<noteq> 2"
    and "\<forall>(k, v) \<in> set d. length (remdups v) = 2 \<longrightarrow> k \<in> R"
  shows "distinct (map fst (fold (\<lambda>(key, v) filt. if key \<notin> R then dict_set key v filt else filt) d acc))
       \<and> (\<forall>(k, v) \<in> set (fold (\<lambda>(key, v) filt. if key \<notin> R then dict_set key v filt else filt) d acc).
             length (remdups v) \<noteq> 2)"
  using assms
proof (induction d arbitrary: acc)
  case Nil
  then show ?case by simp
next
  case (Cons p ps)
  obtain k v where p: "p = (k, v)" by (cases p)
  show ?case
  proof (cases "k \<in> R")
    case True
    then show ?thesis using Cons p by auto
  next
    case False
    have nv: "length (remdups v) \<noteq> 2" using Cons.prems(3) p False by auto
    have d: "distinct (map fst (dict_set k v acc))" using Cons.prems(1) by (rule distinct_dict_set)
    have q: "\<forall>(k, v) \<in> set (dict_set k v acc). length (remdups v) \<noteq> 2"
      using set_dict_set[of k v acc] Cons.prems(2) nv by auto
    have r: "\<forall>(k, v) \<in> set ps. length (remdups v) = 2 \<longrightarrow> k \<in> R" using Cons.prems(3) by simp
    from Cons.IH[OF d q r] show ?thesis using False p by simp
  qed
qed

lemma filter_prot_dict_props:
  "distinct (map fst (filter_prot_dict d))
   \<and> (\<forall>(k, v) \<in> set (filter_prot_dict d). length (remdups v) \<noteq> 2)"
  unfolding filter_prot_dict_def
  by (rule copy_fold_props) (force simp: remove_list_eq)+

text \<open>
  Claim C9. The index filter is idempotent: filtering an index that is already filtered
  gives it back unchanged, for every index.
\<close>

theorem filter_prot_dict_idempotent:
  "filter_prot_dict (filter_prot_dict prot_dict) = filter_prot_dict prot_dict"
proof -
  let ?f = "filter_prot_dict prot_dict"
  have "filter_prot_dict ?f = filter (\<lambda>(key, v). length (remdups v) \<noteq> 2) ?f"
    using filter_prot_dict_props by (intro filter_prot_dict_distinct_input) blast
  also have "\<dots> = ?f"
    using filter_prot_dict_props[of prot_dict] by (intro filter_True) auto
  finally show ?thesis .
qed

theorem filter_prot_dict_idempotent_witness:
  "filter_prot_dict (filter_prot_dict
      [(''p1'', [''OG1'', ''OG7'', ''-'', ''-'']), (''p4'', [''OG1'', ''-'', ''-'', ''-''])])
   = [(''p1'', [''OG1'', ''OG7'', ''-'', ''-''])]"
  using filter_prot_dict_idempotent
    [of "[(''p1'', [''OG1'', ''OG7'', ''-'', ''-'']), (''p4'', [''OG1'', ''-'', ''-'', ''-''])]"]
  by (simp add: filter_prot_dict_def remove_list_def)

text \<open>
  Claim C1. The index filter is to keep a record exactly when at least two of its four
  slots are not the sentinel. The program tests instead whether the set of the slot
  values has two elements: a protein that two programs put into clusters of the same
  name has two slots that are not the sentinel, and its record is dropped.
\<close>

theorem filter_prot_dict_drops_equal_ids:
  "nonsentinel_count [''OG1'', ''OG1'', ''-'', ''-''] = 2
   \<and> filter_prot_dict [(''p1'', [''OG1'', ''OG1'', ''-'', ''-''])] = []"
  by (simp add: filter_prot_dict_def remove_list_def nonsentinel_count_def)

section \<open>The pairwise comparator: the score\<close>

lemma og_compare_found:
  assumes "dict_get dict1 og1 = Inr compare1" "dict_get dict2 og2 = Inr compare2"
  shows "og_compare dict1 og1 dict2 og2 = Inr (ratio compare1 compare2)"
  using assms by (simp add: og_compare_def)

lemma ratio_formula:
  "a \<noteq> [] \<or> b \<noteq> [] \<Longrightarrow>
   ratio a b = 2 * of_nat (matches a b) / of_nat (length a + length b)"
  by (auto simp: ratio_def calculate_ratio_def)

lemma compare_block_same:
  assumes "x < length record" "y < length record" "s1 < length record" "s2 < length record"
    and "record ! x \<noteq> ''-''" "record ! y \<noteq> ''-''"
    and "dict_get dict1 (record ! s1) = Inr member_list" "dict_get dict2 (record ! s2) = Inr member_list"
  shows "compare_block name x y dict1 s1 dict2 s2 record comparison_dict
         = Inr (dict_append name 1 comparison_dict)"
  using assms by (simp add: compare_block_def nth_py_def og_compare_def ratio_same)



section \<open>The pairwise comparator: keys and range of the scores\<close>

lemma bind_sum_Inr: "bind_sum m f = Inr y \<longleftrightarrow> (\<exists>x. m = Inr x \<and> f x = Inr y)"
  by (cases m) auto

lemma bind_sum_Inl: "bind_sum m f = Inl e \<longleftrightarrow> m = Inl e \<or> (\<exists>x. m = Inr x \<and> f x = Inl e)"
  by (cases m) auto

text \<open>
  What the comparator's loop keeps: the keys of \<open>comparison_dict\<close>, and that every
  score lies between 0 and 1.
\<close>

lemma keys_dict_append: "map fst (dict_append name score cd) = map fst cd"
  by (induction cd) (auto simp: dict_append_def)

lemma scores_in_range_append:
  "scores_in_range cd \<Longrightarrow> 0 \<le> score \<Longrightarrow> score \<le> 1 \<Longrightarrow> scores_in_range (dict_append name score cd)"
  unfolding scores_in_range_def dict_append_def by (induction cd) (auto split: if_splits)

lemma compare_block_cases:
  assumes "compare_block name x y dict1 s1 dict2 s2 record cd = Inr cd'"
  shows "cd' = cd \<or> (\<exists>a b :: string list. cd' = dict_append name (ratio a b) cd)"
  using assms unfolding compare_block_def og_compare_def
  by (auto simp: bind_sum_Inr split: if_splits)

lemma compare_block_keeps:
  assumes "compare_block name x y dict1 s1 dict2 s2 record cd = Inr cd'"
  shows "map fst cd' = map fst cd \<and> (scores_in_range cd \<longrightarrow> scores_in_range cd')"
proof -
  from compare_block_cases[OF assms] show ?thesis
  proof
    assume "cd' = cd"
    then show ?thesis by simp
  next
    assume "\<exists>a b :: string list. cd' = dict_append name (ratio a b) cd"
    then obtain a b :: "string list" where "cd' = dict_append name (ratio a b) cd" by blast
    then show ?thesis
      using ratio_bounds[of a b] by (simp add: keys_dict_append scores_in_range_append)
  qed
qed

lemma compare_record_keeps:
  assumes "compare_record pl d1 d2 d3 d4 record cd = Inr cd'"
  shows "map fst cd' = map fst cd \<and> (scores_in_range cd \<longrightarrow> scores_in_range cd')"
proof -
  obtain n1 n2 n3 n4 where pl: "pl = (n1, n2, n3, n4)" by (metis prod.exhaust)
  from assms obtain c1 c2 c3 c4 c5 where
    "compare_block (vs n1 n2) 0 1 d1 0 d2 1 record cd = Inr c1"
    "compare_block (vs n1 n3) 0 2 d1 0 d3 2 record c1 = Inr c2"
    "compare_block (vs n1 n4) 0 3 d1 0 d4 3 record c2 = Inr c3"
    "compare_block (vs n2 n3) 1 2 d3 2 d2 1 record c3 = Inr c4"
    "compare_block (vs n2 n4) 1 3 d4 3 d2 1 record c4 = Inr c5"
    "compare_block (vs n3 n4) 2 3 d3 2 d4 3 record c5 = Inr cd'"
    unfolding compare_record_def pl by (auto simp: bind_sum_Inr)
  then show ?thesis
    using compare_block_keeps by metis
qed

lemma compare_loop_keeps:
  assumes "compare_loop pl d1 d2 d3 d4 filt cd = Inr cd'"
  shows "map fst cd' = map fst cd \<and> (scores_in_range cd \<longrightarrow> scores_in_range cd')"
  using assms
proof (induction filt arbitrary: cd)
  case Nil
  then show ?case by simp
next
  case (Cons p ps)
  obtain key r where p: "p = (key, r)" by (cases p)
  from Cons.prems obtain c where c: "compare_record pl d1 d2 d3 d4 r cd = Inr c"
    "compare_loop pl d1 d2 d3 d4 ps c = Inr cd'"
    by (auto simp: p bind_sum_Inr)
  show ?case using compare_record_keeps[OF c(1)] Cons.IH[OF c(2)] by simp
qed

lemma fold_dict_set_distinct:
  "distinct (map fst acc) \<Longrightarrow> distinct (map fst (fold (\<lambda>name d. dict_set name v d) names acc))"
  by (induction names arbitrary: acc) (auto simp: distinct_dict_set)

lemma fold_dict_set_keys:
  "fst ` set (fold (\<lambda>name d. dict_set name v d) names acc) = set names \<union> fst ` set acc"
  by (induction names arbitrary: acc) (auto simp: keys_dict_set)

lemma fold_dict_set_values:
  "snd ` set acc \<subseteq> {v} \<Longrightarrow> snd ` set (fold (\<lambda>name d. dict_set name v d) names acc) \<subseteq> {v}"
proof (induction names arbitrary: acc)
  case Nil
  then show ?case by simp
next
  case (Cons n ns)
  have "snd ` set (dict_set n v acc) \<subseteq> {v}"
    using set_dict_set[of n v acc] Cons.prems by fastforce
  from Cons.IH[OF this] show ?case by simp
qed

lemma empty_comparison_dict_props:
  "distinct (map fst (empty_comparison_dict pl))"
  "fst ` set (empty_comparison_dict pl) = set (comparison_names pl)"
  "scores_in_range (empty_comparison_dict pl)"
proof -
  show "distinct (map fst (empty_comparison_dict pl))"
    unfolding empty_comparison_dict_def by (rule fold_dict_set_distinct) simp
  show "fst ` set (empty_comparison_dict pl) = set (comparison_names pl)"
    unfolding empty_comparison_dict_def by (simp add: fold_dict_set_keys)
  have "snd ` set (empty_comparison_dict pl) \<subseteq> {[]}"
    unfolding empty_comparison_dict_def by (rule fold_dict_set_values) simp
  then show "scores_in_range (empty_comparison_dict pl)"
    unfolding scores_in_range_def by fastforce
qed

lemma membership_test_props:
  assumes "membership_test pl filt d1 d2 d3 d4 = Inr cd"
  shows "distinct (map fst cd)" "fst ` set cd = set (comparison_names pl)" "scores_in_range cd"
proof -
  have k: "map fst cd = map fst (empty_comparison_dict pl)" and r: "scores_in_range cd"
    using compare_loop_keeps[OF assms[unfolded membership_test_def]] empty_comparison_dict_props(3)
    by simp_all
  show "distinct (map fst cd)" using k empty_comparison_dict_props(1) by simp
  show "fst ` set cd = set (comparison_names pl)"
    using k empty_comparison_dict_props(2)[of pl] by (metis set_map)
  show "scores_in_range cd" by (rule r)
qed

section \<open>The aggregator\<close>

lemma avg_loop_distinct:
  assumes "distinct (map fst cd)" "fst ` set acc \<inter> fst ` set cd = {}"
  shows "avg_loop cd acc =
         (if [] \<in> snd ` set cd then Inl StatisticsError
          else Inr (acc @ map (\<lambda>(key, scores). (key, sum_list scores / of_nat (length scores))) cd))"
  using assms
proof (induction cd arbitrary: acc)
  case Nil
  then show ?case by simp
next
  case (Cons p ps)
  obtain k l where p: "p = (k, l)" by (cases p)
  show ?case
  proof (cases "l = []")
    case True
    then show ?thesis by (simp add: p mean_def)
  next
    case False
    have fresh: "k \<notin> fst ` set acc" using Cons.prems p by auto
    have d: "distinct (map fst ps)" using Cons.prems by simp
    have disj: "fst ` set (acc @ [(k, sum_list l / of_nat (length l))]) \<inter> fst ` set ps = {}"
      using Cons.prems p by auto
    have "[] \<in> snd ` set (p # ps) \<longleftrightarrow> [] \<in> snd ` set ps" using False p by auto
    then show ?thesis
      using Cons.IH[OF d disj] False by (simp add: p mean_def dict_set_fresh[OF fresh])
  qed
qed

lemma avg_membership_scores_distinct:
  assumes "distinct (map fst cd)"
  shows "avg_membership_scores cd =
         (if [] \<in> snd ` set cd then Inl StatisticsError
          else Inr (map (\<lambda>(key, scores). (key, sum_list scores / of_nat (length scores))) cd))"
  unfolding avg_membership_scores_def using avg_loop_distinct[OF assms, of "[]"] by simp

lemma avg_run_error:
  assumes "avg_membership_scores cd = Inl err"
  shows "bind_run (avg_membership_scores_run ident cd) f fs = (Inl err, fs)"
  using assms by (simp add: avg_membership_scores_run_def bind_run_def lift_def)



lemma sum_list_range:
  fixes scores :: "rat list"
  assumes "\<forall>score \<in> set scores. 0 \<le> score \<and> score \<le> 1"
  shows "0 \<le> sum_list scores \<and> sum_list scores \<le> of_nat (length scores)"
  using assms by (induction scores) auto

lemma mean_range:
  fixes scores :: "rat list"
  assumes "\<forall>score \<in> set scores. 0 \<le> score \<and> score \<le> 1" "scores \<noteq> []"
  shows "0 \<le> sum_list scores / of_nat (length scores) \<and> sum_list scores / of_nat (length scores) \<le> 1"
  using sum_list_range[OF assms(1)] assms(2) by (simp add: divide_le_eq_1)

lemma avg_membership_scores_range:
  assumes "distinct (map fst cd)" "scores_in_range cd" "avg_membership_scores cd = Inr sd"
  shows "distinct (map fst sd) \<and> map fst sd = map fst cd \<and> (\<forall>(key, score) \<in> set sd. 0 \<le> score \<and> score \<le> 1)"
proof -
  have ne: "[] \<notin> snd ` set cd"
    and sd: "sd = map (\<lambda>(key, scores). (key, sum_list scores / of_nat (length scores))) cd"
    using avg_membership_scores_distinct[OF assms(1)] assms(3) by (auto split: if_splits)
  have k: "map fst sd = map fst cd" unfolding sd by (induction cd) auto
  have "\<forall>(key, score) \<in> set sd. 0 \<le> score \<and> score \<le> 1"
  proof -
    { fix key scores assume in_cd: "(key, scores) \<in> set cd"
      then have "scores \<noteq> []" using ne by force
      moreover have "\<forall>score \<in> set scores. 0 \<le> score \<and> score \<le> 1"
        using assms(2) in_cd unfolding scores_in_range_def by blast
      ultimately have "0 \<le> sum_list scores / of_nat (length scores)
                       \<and> sum_list scores / of_nat (length scores) \<le> 1"
        using mean_range by blast }
    then show ?thesis unfolding sd by auto
  qed
  then show ?thesis using k assms(1) by simp
qed

section \<open>The threshold filter\<close>

lemma fold_dict_set_filter:
  assumes "distinct (map fst d)" "fst ` set acc \<inter> fst ` set d = {}"
  shows "fold (\<lambda>(key, v) acc. if P key v then dict_set key v acc else acc) d acc
         = acc @ filter (\<lambda>(key, v). P key v) d"
  using assms
proof (induction d arbitrary: acc)
  case Nil
  then show ?case by simp
next
  case (Cons p ps)
  obtain k v where p: "p = (k, v)" by (cases p)
  show ?case
  proof (cases "P k v")
    case False
    then show ?thesis using Cons p by auto
  next
    case True
    have fresh: "k \<notin> fst ` set acc" using Cons.prems p by auto
    have disj: "fst ` set (acc @ [(k, v)]) \<inter> fst ` set ps = {}"
      using Cons.prems p by auto
    have "distinct (map fst ps)" using Cons.prems by simp
    from Cons.IH[OF this disj] show ?thesis
      using True p by (simp add: dict_set_fresh[OF fresh])
  qed
qed

lemma threshold_test_distinct:
  assumes "distinct (map fst og_score_dict)"
  shows "threshold_test p og_score_dict
         = filter (\<lambda>(key, score). of_int p / 100 \<le> score) og_score_dict"
  unfolding threshold_test_def membership_decimal_def
  using fold_dict_set_filter[OF assms, of "[]" "\<lambda>key score. of_int p / 100 \<le> score"] by simp

lemma threshold_zero:
  assumes "distinct (map fst sd)" "\<forall>(key, score) \<in> set sd. (0::rat) \<le> score"
  shows "threshold_test 0 sd = sd"
  using assms(2) unfolding threshold_test_distinct[OF assms(1)] by (intro filter_True) auto

lemma threshold_above_100:
  assumes "distinct (map fst sd)" "\<forall>(key, score) \<in> set sd. score \<le> (1::rat)" "100 < p"
  shows "threshold_test p sd = []"
proof -
  have "(1::rat) < of_int p / 100" using assms(3) by simp
  then have "\<forall>(key, score) \<in> set sd. \<not> of_int p / 100 \<le> score" using assms(2) by fastforce
  then show ?thesis unfolding threshold_test_distinct[OF assms(1)] by (auto simp: filter_empty_conv)
qed

lemma pipeline_scores:
  assumes "membership_test pl filt d1 d2 d3 d4 = Inr cd" "avg_membership_scores cd = Inr sd"
  shows "distinct (map fst sd) \<and> (\<forall>(key, score) \<in> set sd. 0 \<le> score \<and> score \<le> 1)"
  using avg_membership_scores_range[OF membership_test_props(1)[OF assms(1)]
          membership_test_props(3)[OF assms(1)] assms(2)] by blast



section \<open>The pairwise comparator: when it returns\<close>

lemma succeeds_or_key_error_bind:
  assumes "succeeds m \<or> key_error m" "\<And>x. succeeds (f x) \<or> key_error (f x)"
  shows "succeeds (bind_sum m f) \<or> key_error (bind_sum m f)"
  using assms by (cases m) (auto simp: succeeds_def key_error_def)

lemma succeeds_bind: "succeeds (bind_sum m f) \<longleftrightarrow> (\<exists>x. m = Inr x \<and> succeeds (f x))"
  by (cases m) (auto simp: succeeds_def)

lemma dict_get_succeeds: "succeeds (dict_get d k) \<longleftrightarrow> k \<in> fst ` set d"
proof (cases "map_of d k")
  case None
  then have "k \<notin> fst ` set d" by (simp add: map_of_eq_None_iff)
  then show ?thesis using None by (simp add: dict_get_def succeeds_def)
next
  case (Some v)
  then have "k \<in> fst ` set d" by (metis map_of_eq_None_iff option.distinct(1))
  then show ?thesis using Some by (simp add: dict_get_def succeeds_def)
qed

lemma dict_get_cases: "succeeds (dict_get d k) \<or> key_error (dict_get d k)"
  by (auto simp: dict_get_def succeeds_def key_error_def split: option.splits)

lemma og_compare_succeeds:
  "succeeds (og_compare dict1 og1 dict2 og2) \<longleftrightarrow> og1 \<in> fst ` set dict1 \<and> og2 \<in> fst ` set dict2"
  unfolding og_compare_def
  by (cases "dict_get dict1 og1"; cases "dict_get dict2 og2")
     (auto simp: succeeds_def dict_get_succeeds[symmetric])

lemma og_compare_cases:
  "succeeds (og_compare dict1 og1 dict2 og2) \<or> key_error (og_compare dict1 og1 dict2 og2)"
  unfolding og_compare_def
  by (intro succeeds_or_key_error_bind dict_get_cases) (simp add: succeeds_def)

lemma compare_block_succeeds:
  assumes "x < length r" "y < length r" "s1 < length r" "s2 < length r"
  shows "succeeds (compare_block name x y dict1 s1 dict2 s2 r cd)
         \<longleftrightarrow> (r ! x \<noteq> ''-'' \<and> r ! y \<noteq> ''-'' \<longrightarrow> r ! s1 \<in> fst ` set dict1 \<and> r ! s2 \<in> fst ` set dict2)"
  using assms og_compare_succeeds[of dict1 "r ! s1" dict2 "r ! s2"]
  unfolding compare_block_def nth_py_def
  by (cases "og_compare dict1 (r ! s1) dict2 (r ! s2)") (auto simp: succeeds_def)

lemma compare_block_cases2:
  assumes "x < length r" "y < length r" "s1 < length r" "s2 < length r"
  shows "succeeds (compare_block name x y dict1 s1 dict2 s2 r cd)
         \<or> key_error (compare_block name x y dict1 s1 dict2 s2 r cd)"
  using assms og_compare_cases[of dict1 "r ! s1" dict2 "r ! s2"]
  unfolding compare_block_def nth_py_def
  by (cases "og_compare dict1 (r ! s1) dict2 (r ! s2)") (auto simp: succeeds_def key_error_def)

lemma one_slot_remdups:
  assumes "length r = 4" "length (remdups r) \<noteq> 2" "i < 4" "r ! i \<noteq> ''-''"
  shows "\<exists>j<4. j \<noteq> i \<and> r ! j \<noteq> ''-''"
proof (rule ccontr)
  assume "\<not> (\<exists>j<4. j \<noteq> i \<and> r ! j \<noteq> ''-'')"
  then have others: "\<And>j. j < 4 \<Longrightarrow> j \<noteq> i \<Longrightarrow> r ! j = ''-''" by blast
  obtain s0 s1 s2 s3 where r: "r = [s0, s1, s2, s3]"
    using assms(1) by (auto simp: length_Suc_conv numeral_eq_Suc)
  consider "i = 0" | "i = 1" | "i = 2" | "i = 3" using assms(3) by linarith
  then have "length (remdups r) = 2"
  proof cases
    case 1
    then show ?thesis using others[of 1] others[of 2] others[of 3] assms(4) by (simp add: r)
  next
    case 2
    then show ?thesis using others[of 0] others[of 2] others[of 3] assms(4) by (auto simp: r)
  next
    case 3
    then show ?thesis using others[of 0] others[of 1] others[of 3] assms(4) by (auto simp: r)
  next
    case 4
    then show ?thesis using others[of 0] others[of 1] others[of 2] assms(4) by (auto simp: r)
  qed
  then show False using assms(2) by simp
qed

lemma compare_record_cases:
  assumes "length r = 4"
  shows "succeeds (compare_record pl d1 d2 d3 d4 r cd) \<or> key_error (compare_record pl d1 d2 d3 d4 r cd)"
proof -
  obtain n1 n2 n3 n4 where pl: "pl = (n1, n2, n3, n4)" by (metis prod.exhaust)
  show ?thesis unfolding compare_record_def pl prod.case
    by (intro succeeds_or_key_error_bind compare_block_cases2) (simp_all add: assms)
qed

lemma succeeds_bind_const:
  assumes "\<And>x. succeeds (f x) \<longleftrightarrow> Q"
  shows "succeeds (bind_sum m f) \<longleftrightarrow> succeeds m \<and> Q"
  using assms by (cases m) (auto simp: succeeds_def)

lemma compare_record_succeeds:
  assumes "length r = 4"
  shows "succeeds (compare_record pl d1 d2 d3 d4 r cd) \<longleftrightarrow>
           block_ok 0 1 d1 0 d2 1 r \<and> block_ok 0 2 d1 0 d3 2 r \<and> block_ok 0 3 d1 0 d4 3 r
         \<and> block_ok 1 2 d3 2 d2 1 r \<and> block_ok 1 3 d4 3 d2 1 r \<and> block_ok 2 3 d3 2 d4 3 r"
proof -
  obtain n1 n2 n3 n4 where pl: "pl = (n1, n2, n3, n4)" by (metis prod.exhaust)
  have b: "\<And>name x y dict1 s1 dict2 s2 c. x < 4 \<Longrightarrow> y < 4 \<Longrightarrow> s1 < 4 \<Longrightarrow> s2 < 4 \<Longrightarrow>
        succeeds (compare_block name x y dict1 s1 dict2 s2 r c) \<longleftrightarrow> block_ok x y dict1 s1 dict2 s2 r"
    unfolding block_ok_def using assms by (intro compare_block_succeeds) simp_all
  have s6: "\<And>c. succeeds (compare_block (vs n3 n4) 2 3 d3 2 d4 3 r c) \<longleftrightarrow> block_ok 2 3 d3 2 d4 3 r"
    by (rule b) simp_all
  have s5: "\<And>c. succeeds (bind_sum (compare_block (vs n2 n4) 1 3 d4 3 d2 1 r c)
                  (compare_block (vs n3 n4) 2 3 d3 2 d4 3 r))
            \<longleftrightarrow> block_ok 1 3 d4 3 d2 1 r \<and> block_ok 2 3 d3 2 d4 3 r"
    by (subst succeeds_bind_const[OF s6], subst b) simp_all
  have s4: "\<And>c. succeeds (bind_sum (compare_block (vs n2 n3) 1 2 d3 2 d2 1 r c) (\<lambda>c4.
                  bind_sum (compare_block (vs n2 n4) 1 3 d4 3 d2 1 r c4)
                  (compare_block (vs n3 n4) 2 3 d3 2 d4 3 r)))
            \<longleftrightarrow> block_ok 1 2 d3 2 d2 1 r \<and> block_ok 1 3 d4 3 d2 1 r \<and> block_ok 2 3 d3 2 d4 3 r"
    by (subst succeeds_bind_const[OF s5], subst b) simp_all
  have s3: "\<And>c. succeeds (bind_sum (compare_block (vs n1 n4) 0 3 d1 0 d4 3 r c) (\<lambda>c3.
                  bind_sum (compare_block (vs n2 n3) 1 2 d3 2 d2 1 r c3) (\<lambda>c4.
                  bind_sum (compare_block (vs n2 n4) 1 3 d4 3 d2 1 r c4)
                  (compare_block (vs n3 n4) 2 3 d3 2 d4 3 r))))
            \<longleftrightarrow> block_ok 0 3 d1 0 d4 3 r
              \<and> block_ok 1 2 d3 2 d2 1 r \<and> block_ok 1 3 d4 3 d2 1 r \<and> block_ok 2 3 d3 2 d4 3 r"
    by (subst succeeds_bind_const[OF s4], subst b) simp_all
  have s2: "\<And>c. succeeds (bind_sum (compare_block (vs n1 n3) 0 2 d1 0 d3 2 r c) (\<lambda>c2.
                  bind_sum (compare_block (vs n1 n4) 0 3 d1 0 d4 3 r c2) (\<lambda>c3.
                  bind_sum (compare_block (vs n2 n3) 1 2 d3 2 d2 1 r c3) (\<lambda>c4.
                  bind_sum (compare_block (vs n2 n4) 1 3 d4 3 d2 1 r c4)
                  (compare_block (vs n3 n4) 2 3 d3 2 d4 3 r)))))
            \<longleftrightarrow> block_ok 0 2 d1 0 d3 2 r \<and> block_ok 0 3 d1 0 d4 3 r
              \<and> block_ok 1 2 d3 2 d2 1 r \<and> block_ok 1 3 d4 3 d2 1 r \<and> block_ok 2 3 d3 2 d4 3 r"
    by (subst succeeds_bind_const[OF s3], subst b) simp_all
  show ?thesis
    unfolding compare_record_def pl prod.case
    by (subst succeeds_bind_const[OF s2], subst b) simp_all
qed

lemma record_ok_iff:
  assumes "length r = 4" "length (remdups r) \<noteq> 2"
  shows "record_ok d1 d2 d3 d4 r \<longleftrightarrow>
           block_ok 0 1 d1 0 d2 1 r \<and> block_ok 0 2 d1 0 d3 2 r \<and> block_ok 0 3 d1 0 d4 3 r
         \<and> block_ok 1 2 d3 2 d2 1 r \<and> block_ok 1 3 d4 3 d2 1 r \<and> block_ok 2 3 d3 2 d4 3 r"
proof
  assume "record_ok d1 d2 d3 d4 r"
  then show "block_ok 0 1 d1 0 d2 1 r \<and> block_ok 0 2 d1 0 d3 2 r \<and> block_ok 0 3 d1 0 d4 3 r
         \<and> block_ok 1 2 d3 2 d2 1 r \<and> block_ok 1 3 d4 3 d2 1 r \<and> block_ok 2 3 d3 2 d4 3 r"
    unfolding record_ok_def slot_ok_def block_ok_def by blast
next
  assume blocks: "block_ok 0 1 d1 0 d2 1 r \<and> block_ok 0 2 d1 0 d3 2 r \<and> block_ok 0 3 d1 0 d4 3 r
         \<and> block_ok 1 2 d3 2 d2 1 r \<and> block_ok 1 3 d4 3 d2 1 r \<and> block_ok 2 3 d3 2 d4 3 r"
  have other: "\<And>i. i < 4 \<Longrightarrow> r ! i \<noteq> ''-'' \<Longrightarrow> \<exists>j<4. j \<noteq> i \<and> r ! j \<noteq> ''-''"
    using one_slot_remdups[OF assms] by blast
  have "slot_ok d1 (r ! 0)"
  proof (cases "r ! 0 = ''-''")
    case True
    then show ?thesis by (simp add: slot_ok_def)
  next
    case False
    then obtain j where j: "j < 4" "j \<noteq> 0" "r ! j \<noteq> ''-''" using other[of 0] by auto
    then have "j = 1 \<or> j = 2 \<or> j = 3" by linarith
    then show ?thesis using blocks False j(3) unfolding block_ok_def slot_ok_def by auto
  qed
  moreover have "slot_ok d2 (r ! 1)"
  proof (cases "r ! 1 = ''-''")
    case True
    then show ?thesis by (simp add: slot_ok_def)
  next
    case False
    then obtain j where j: "j < 4" "j \<noteq> 1" "r ! j \<noteq> ''-''" using other[of 1] by auto
    then have "j = 0 \<or> j = 2 \<or> j = 3" by linarith
    then show ?thesis using blocks False j(3) unfolding block_ok_def slot_ok_def by auto
  qed
  moreover have "slot_ok d3 (r ! 2)"
  proof (cases "r ! 2 = ''-''")
    case True
    then show ?thesis by (simp add: slot_ok_def)
  next
    case False
    then obtain j where j: "j < 4" "j \<noteq> 2" "r ! j \<noteq> ''-''" using other[of 2] by auto
    then have "j = 0 \<or> j = 1 \<or> j = 3" by linarith
    then show ?thesis using blocks False j(3) unfolding block_ok_def slot_ok_def by auto
  qed
  moreover have "slot_ok d4 (r ! 3)"
  proof (cases "r ! 3 = ''-''")
    case True
    then show ?thesis by (simp add: slot_ok_def)
  next
    case False
    then obtain j where j: "j < 4" "j \<noteq> 3" "r ! j \<noteq> ''-''" using other[of 3] by auto
    then have "j = 0 \<or> j = 1 \<or> j = 2" by linarith
    then show ?thesis using blocks False j(3) unfolding block_ok_def slot_ok_def by auto
  qed
  ultimately show "record_ok d1 d2 d3 d4 r" by (simp add: record_ok_def)
qed

lemma compare_loop_succeeds:
  assumes "\<forall>(key, r) \<in> set filt. length r = 4 \<and> length (remdups r) \<noteq> 2"
  shows "succeeds (compare_loop pl d1 d2 d3 d4 filt cd)
         \<longleftrightarrow> (\<forall>(key, r) \<in> set filt. record_ok d1 d2 d3 d4 r)"
  using assms
proof (induction filt arbitrary: cd)
  case Nil
  then show ?case by (simp add: succeeds_def)
next
  case (Cons p ps)
  obtain key r where p: "p = (key, r)" by (cases p)
  have r: "length r = 4" "length (remdups r) \<noteq> 2" using Cons.prems p by auto
  have rest: "\<forall>(key, r) \<in> set ps. length r = 4 \<and> length (remdups r) \<noteq> 2"
    using Cons.prems by simp
  have "succeeds (compare_loop pl d1 d2 d3 d4 (p # ps) cd)
        \<longleftrightarrow> succeeds (compare_record pl d1 d2 d3 d4 r cd) \<and> (\<forall>(key, r) \<in> set ps. record_ok d1 d2 d3 d4 r)"
    unfolding p compare_loop.simps by (rule succeeds_bind_const) (rule Cons.IH[OF rest])
  then show ?case
    using compare_record_succeeds[OF r(1), of pl d1 d2 d3 d4 cd] record_ok_iff[OF r, of d1 d2 d3 d4]
    by (simp add: p)
qed

lemma compare_loop_cases:
  assumes "\<forall>(key, r) \<in> set filt. length r = 4"
  shows "succeeds (compare_loop pl d1 d2 d3 d4 filt cd) \<or> key_error (compare_loop pl d1 d2 d3 d4 filt cd)"
  using assms
proof (induction filt arbitrary: cd)
  case Nil
  then show ?case by (simp add: succeeds_def)
next
  case (Cons p ps)
  obtain key r where p: "p = (key, r)" by (cases p)
  have r: "length r = 4" and rest: "\<forall>(key, r) \<in> set ps. length r = 4"
    using Cons.prems p by auto
  show ?case unfolding p compare_loop.simps
    by (intro succeeds_or_key_error_bind compare_record_cases[OF r] Cons.IH[OF rest])
qed

lemma copy_fold_subset:
  "set (fold (\<lambda>(key, v) filt. if key \<notin> R then dict_set key v filt else filt) d acc)
   \<subseteq> set acc \<union> set d"
proof (induction d arbitrary: acc)
  case Nil
  then show ?case by simp
next
  case (Cons p ps)
  obtain k v where p: "p = (k, v)" by (cases p)
  show ?case using Cons.IH[of "dict_set k v acc"] Cons.IH[of acc] set_dict_set[of k v acc]
    by (auto simp: p)
qed

lemma filter_prot_dict_subset: "set (filter_prot_dict d) \<subseteq> set d"
  unfolding filter_prot_dict_def using copy_fold_subset[of _ d "[]"] by simp

lemma membership_test_run_error:
  assumes "membership_test pl filt d1 d2 d3 d4 = Inl err"
  shows "bind_run (membership_test_run pl ident filt d1 d2 d3 d4) rest fs = (Inl err, fs)"
  using assms by (simp add: membership_test_run_def bind_run_def lift_def)

text \<open>
  Claim C10. On an index that the filter produced from four-slot records, the comparator
  returns exactly when every non-sentinel slot of every record is a key of the
  corresponding program's cluster mapping. Otherwise it raises KeyError, and the run ends
  there: the score lists are not written and nothing that follows is executed.
\<close>

theorem comparator_total_iff_slots_resolve:
  assumes "\<forall>(key, r) \<in> set prot_dict. length r = 4"
  shows "if \<forall>(key, r) \<in> set (filter_prot_dict prot_dict). record_ok d1 d2 d3 d4 r
         then \<exists>comparison_dict.
                membership_test pl (filter_prot_dict prot_dict) d1 d2 d3 d4 = Inr comparison_dict
         else \<exists>og. membership_test pl (filter_prot_dict prot_dict) d1 d2 d3 d4 = Inl (KeyError og)
                \<and> bind_run (membership_test_run pl ident (filter_prot_dict prot_dict) d1 d2 d3 d4) rest fs
                    = (Inl (KeyError og), fs)"
proof -
  let ?filt = "filter_prot_dict prot_dict"
  have four: "\<forall>(key, r) \<in> set ?filt. length r = 4"
    using assms filter_prot_dict_subset[of prot_dict] by blast
  have both: "\<forall>(key, r) \<in> set ?filt. length r = 4 \<and> length (remdups r) \<noteq> 2"
    using four filter_prot_dict_props[of prot_dict] by blast
  have iff: "succeeds (membership_test pl ?filt d1 d2 d3 d4)
             \<longleftrightarrow> (\<forall>(key, r) \<in> set ?filt. record_ok d1 d2 d3 d4 r)"
    unfolding membership_test_def by (rule compare_loop_succeeds[OF both])
  have cases: "succeeds (membership_test pl ?filt d1 d2 d3 d4) \<or> key_error (membership_test pl ?filt d1 d2 d3 d4)"
    unfolding membership_test_def by (rule compare_loop_cases[OF four])
  show ?thesis
  proof (cases "\<forall>(key, r) \<in> set ?filt. record_ok d1 d2 d3 d4 r")
    case True
    then have "succeeds (membership_test pl ?filt d1 d2 d3 d4)" using iff by simp
    then show ?thesis using True by (auto simp: succeeds_def split: sum.splits)
  next
    case False
    then have "key_error (membership_test pl ?filt d1 d2 d3 d4)" using iff cases by blast
    then obtain og where e: "membership_test pl ?filt d1 d2 d3 d4 = Inl (KeyError og)"
      by (auto simp: key_error_def split: sum.splits error.splits)
    show ?thesis using False e membership_test_run_error[OF e] by auto
  qed
qed

theorem comparator_total_iff_slots_resolve_witness:
  "membership_test (''A'', ''B'', ''C'', ''D'')
     (filter_prot_dict [(''p1'', [''OG1'', ''OGx'', ''-'', ''-'']), (''p2'', [''OG1'', ''-'', ''-'', ''-''])])
     [(''OG1'', [''p1'', ''p2''])] [(''OG9'', [''p1''])] [] [] = Inl (KeyError ''OGx'')
   \<and> bind_run (membership_test_run (''A'', ''B'', ''C'', ''D'') ''run1''
        (filter_prot_dict [(''p1'', [''OG1'', ''OGx'', ''-'', ''-'']), (''p2'', [''OG1'', ''-'', ''-'', ''-''])])
        [(''OG1'', [''p1'', ''p2''])] [(''OG9'', [''p1''])] [] [])
        (\<lambda>comparison_dict. lift (avg_membership_scores comparison_dict)) Map.empty
      = (Inl (KeyError ''OGx''), Map.empty)
   \<and> (\<exists>comparison_dict. membership_test (''A'', ''B'', ''C'', ''D'')
     (filter_prot_dict [(''p1'', [''OG1'', ''OGx'', ''-'', ''-'']), (''p2'', [''OG1'', ''-'', ''-'', ''-''])])
     [(''OG1'', [''p1'', ''p2''])] [(''OGx'', [''p1''])] [] [] = Inr comparison_dict)"
proof -
  let ?pd = "[(''p1'', [''OG1'', ''OGx'', ''-'', ''-'']), (''p2'', [''OG1'', ''-'', ''-'', ''-''])]"
  have f: "filter_prot_dict ?pd = [(''p1'', [''OG1'', ''OGx'', ''-'', ''-''])]"
    by (simp add: filter_prot_dict_def remove_list_def)
  have l: "\<forall>(key, r) \<in> set ?pd. length r = 4" by simp
  have bad: "\<not> (\<forall>(key, r) \<in> set (filter_prot_dict ?pd).
               record_ok [(''OG1'', [''p1'', ''p2''])] [(''OG9'', [''p1''])] [] [] r)"
    by (simp add: f record_ok_def slot_ok_def)
  have good: "\<forall>(key, r) \<in> set (filter_prot_dict ?pd).
               record_ok [(''OG1'', [''p1'', ''p2''])] [(''OGx'', [''p1''])] [] [] r"
    by (simp add: f record_ok_def slot_ok_def)
  have e: "membership_test (''A'', ''B'', ''C'', ''D'') (filter_prot_dict ?pd)
             [(''OG1'', [''p1'', ''p2''])] [(''OG9'', [''p1''])] [] [] = Inl (KeyError ''OGx'')"
    unfolding f by code_simp
  show ?thesis
    using comparator_total_iff_slots_resolve[OF l, of "[(''OG1'', [''p1'', ''p2''])]" "[(''OG9'', [''p1''])]" "[]" "[]"
            "(''A'', ''B'', ''C'', ''D'')" "''run1''" "\<lambda>comparison_dict. lift (avg_membership_scores comparison_dict)" Map.empty]
          comparator_total_iff_slots_resolve[OF l, of "[(''OG1'', [''p1'', ''p2''])]" "[(''OGx'', [''p1''])]" "[]" "[]"
            "(''A'', ''B'', ''C'', ''D'')"]
          bad good e
    by auto
qed

section \<open>The membership index builder\<close>

lemma to_df_append: "to_df (xs @ ys) = to_df xs @ to_df ys"
  by (simp add: to_df_def)

lemma to_df_Cons: "to_df ((og, L) # rest) = map (\<lambda>var. (var, og)) L @ to_df rest"
  by (simp add: to_df_def)

lemma queries_to_df_concat: "queries (to_df d) = concat (map snd d)"
proof (induction d)
  case Nil
  then show ?case by (simp add: to_df_def queries_def)
next
  case (Cons p ps)
  obtain og L where p: "p = (og, L)" by (cases p)
  have "map fst (map (\<lambda>var. (var, og)) L) = L" by (induction L) simp_all
  then show ?case using Cons by (simp add: p to_df_def queries_def)
qed

lemma queries_to_df: "set (queries (to_df d)) = members d"
  by (simp only: queries_to_df_concat members_def)

lemma filter_to_df_absent:
  "prot \<notin> members d \<Longrightarrow> filter (\<lambda>row. fst row = prot) (to_df d) = []"
proof -
  assume "prot \<notin> members d"
  then have "prot \<notin> fst ` set (to_df d)" using queries_to_df[of d] by (simp add: queries_def)
  then show ?thesis by (force simp: filter_empty_conv)
qed

lemma prog_og_absent: "prot \<notin> members d \<Longrightarrow> prog_og (to_df d) prot = ''-''"
  by (simp add: prog_og_def queries_to_df)

lemma filter_rows_cluster:
  "prot \<in> set L \<Longrightarrow> \<exists>rows. filter (\<lambda>row. fst row = prot) (map (\<lambda>var. (var, og)) L) = (prot, og) # rows"
proof (induction L)
  case Nil
  then show ?case by simp
next
  case (Cons v vs)
  then show ?case by (cases "v = prot") auto
qed

lemma prog_og_first:
  assumes "d = pre @ (og, L) # post" "prot \<in> set L" "prot \<notin> members pre"
  shows "prog_og (to_df d) prot = og"
proof -
  let ?P = "\<lambda>row :: string \<times> string. fst row = prot"
  have "members d = members pre \<union> set L \<union> members post"
    unfolding assms(1) members_def by auto
  then have m: "prot \<in> set (queries (to_df d))"
    using assms(2) by (simp only: queries_to_df) simp
  from filter_rows_cluster[OF assms(2), of og]
  obtain rows where r: "filter ?P (map (\<lambda>var. (var, og)) L) = (prot, og) # rows" ..
  have "to_df d = to_df pre @ map (\<lambda>var. (var, og)) L @ to_df post"
    unfolding assms(1) by (simp only: to_df_append to_df_Cons)
  then have "filter ?P (to_df d)
             = filter ?P (to_df pre) @ filter ?P (map (\<lambda>var. (var, og)) L) @ filter ?P (to_df post)"
    by (simp only: filter_append)
  then have f: "filter ?P (to_df d) = (prot, og) # rows @ filter ?P (to_df post)"
    by (simp only: r filter_to_df_absent[OF assms(3)] append_Nil append_Cons)
  have "loc_iloc0 (to_df d) prot = og"
    unfolding loc_iloc0_def f by simp
  then show ?thesis using m by (simp only: prog_og_def if_True)
qed

lemma members_split:
  assumes "prot \<in> members d"
  shows "\<exists>pre og L post. d = pre @ (og, L) # post \<and> prot \<in> set L \<and> prot \<notin> members pre"
  using assms
proof (induction d)
  case Nil
  then show ?case by (simp add: members_def)
next
  case (Cons p ps)
  obtain og L where p: "p = (og, L)" by (cases p)
  show ?case
  proof (cases "prot \<in> set L")
    case True
    have "p # ps = [] @ (og, L) # ps \<and> prot \<in> set L \<and> prot \<notin> members []"
      using True p by (simp add: members_def)
    then show ?thesis by blast
  next
    case False
    then have "prot \<in> members ps" using Cons.prems p by (simp add: members_def)
    from Cons.IH[OF this] obtain pre og' L' post where
      s: "ps = pre @ (og', L') # post" "prot \<in> set L'" "prot \<notin> members pre" by blast
    have "p # ps = (p # pre) @ (og', L') # post \<and> prot \<in> set L' \<and> prot \<notin> members (p # pre)"
      using s False p by (simp add: members_def)
    then show ?thesis by blast
  qed
qed

lemma prog_og_present:
  assumes "prot \<in> members d"
  shows "holds_cluster_of d prot (prog_og (to_df d) prot)"
proof -
  obtain pre og L post where s: "d = pre @ (og, L) # post" "prot \<in> set L" "prot \<notin> members pre"
    using members_split[OF assms] by blast
  have "prog_og (to_df d) prot = og" using s by (rule prog_og_first)
  then show ?thesis using s(1,2) by (auto simp: holds_cluster_of_def)
qed

lemma prog_og_sentinel_iff:
  assumes "''-'' \<notin> fst ` set d"
  shows "prog_og (to_df d) prot = ''-'' \<longleftrightarrow> prot \<notin> members d"
proof
  assume eq: "prog_og (to_df d) prot = ''-''"
  show "prot \<notin> members d"
  proof
    assume "prot \<in> members d"
    from prog_og_present[OF this] have "''-'' \<in> fst ` set d"
      unfolding eq holds_cluster_of_def by force
    then show False using assms by simp
  qed
next
  assume "prot \<notin> members d"
  then show "prog_og (to_df d) prot = ''-''" by (rule prog_og_absent)
qed

lemma fold_dict_set_map:
  assumes "distinct ps" "set ps \<inter> fst ` set acc = {}"
  shows "fold (\<lambda>p d. dict_set p (f p) d) ps acc = acc @ map (\<lambda>p. (p, f p)) ps"
  using assms
proof (induction ps arbitrary: acc)
  case Nil
  then show ?case by simp
next
  case (Cons p ps)
  have fresh: "p \<notin> fst ` set acc" using Cons.prems by auto
  have d: "distinct ps" and disj: "set ps \<inter> fst ` set (acc @ [(p, f p)]) = {}"
    using Cons.prems by auto
  show ?case using Cons.IH[OF d disj] by (simp add: dict_set_fresh[OF fresh])
qed

lemma create_prot_dict_eq:
  assumes "set_iter_ok iter (queries df1 @ queries df2 @ queries df3 @ queries df4)"
  shows "create_prot_dict iter df1 df2 df3 df4
         = map (\<lambda>prot. (prot, [prog_og df1 prot, prog_og df2 prot, prog_og df3 prot, prog_og df4 prot]))
             (iter (queries df1 @ queries df2 @ queries df3 @ queries df4))"
  unfolding create_prot_dict_def
  using fold_dict_set_map[of "iter (queries df1 @ queries df2 @ queries df3 @ queries df4)" "[]"]
        assms
  by (simp add: set_iter_ok_def)

lemma create_prot_dict_lookup:
  assumes "set_iter_ok iter (queries df1 @ queries df2 @ queries df3 @ queries df4)"
  shows "distinct (map fst (create_prot_dict iter df1 df2 df3 df4))"
    and "set (map fst (create_prot_dict iter df1 df2 df3 df4))
         = set (queries df1) \<union> set (queries df2) \<union> set (queries df3) \<union> set (queries df4)"
    and "prot \<in> set (queries df1) \<union> set (queries df2) \<union> set (queries df3) \<union> set (queries df4)
         \<Longrightarrow> map_of (create_prot_dict iter df1 df2 df3 df4) prot
             = Some [prog_og df1 prot, prog_og df2 prot, prog_og df3 prot, prog_og df4 prot]"
proof -
  let ?order = "iter (queries df1 @ queries df2 @ queries df3 @ queries df4)"
  have ok: "distinct ?order" "set ?order = set (queries df1) \<union> set (queries df2) \<union> set (queries df3) \<union> set (queries df4)"
    using assms by (auto simp: set_iter_ok_def)
  have k: "map fst (create_prot_dict iter df1 df2 df3 df4) = ?order"
    unfolding create_prot_dict_eq[OF assms] by (simp add: comp_def)
  show "distinct (map fst (create_prot_dict iter df1 df2 df3 df4))" using k ok by simp
  show "set (map fst (create_prot_dict iter df1 df2 df3 df4))
         = set (queries df1) \<union> set (queries df2) \<union> set (queries df3) \<union> set (queries df4)"
    using k ok by simp
  show "map_of (create_prot_dict iter df1 df2 df3 df4) prot
             = Some [prog_og df1 prot, prog_og df2 prot, prog_og df3 prot, prog_og df4 prot]"
    if "prot \<in> set (queries df1) \<union> set (queries df2) \<union> set (queries df3) \<union> set (queries df4)"
    unfolding create_prot_dict_eq[OF assms]
    using that ok(2) by (simp add: map_of_map_restrict restrict_map_def)
qed




text \<open>
  Claim C2, amended. When a protein is a member of several clusters of one program, the
  slot holds the first of them in the order of the mapping: the data frame keeps every
  (cluster, member) row and \<open>.iloc[0]\<close> takes the first row of the protein.
\<close>

theorem index_builder_first_cluster_wins:
  assumes "set_iter_ok iter (queries df1 @ queries df2 @ queries df3 @ queries df4)"
    and "prog_dict = pre @ (og, L) # post" "prot \<in> set L" "prot \<notin> members pre"
  shows "prog_og (to_df prog_dict) prot = og
       \<and> (df1 = to_df prog_dict \<longrightarrow>
            map_of (create_prot_dict iter df1 df2 df3 df4) prot
            = Some [og, prog_og df2 prot, prog_og df3 prot, prog_og df4 prot])
       \<and> (df2 = to_df prog_dict \<longrightarrow>
            map_of (create_prot_dict iter df1 df2 df3 df4) prot
            = Some [prog_og df1 prot, og, prog_og df3 prot, prog_og df4 prot])
       \<and> (df3 = to_df prog_dict \<longrightarrow>
            map_of (create_prot_dict iter df1 df2 df3 df4) prot
            = Some [prog_og df1 prot, prog_og df2 prot, og, prog_og df4 prot])
       \<and> (df4 = to_df prog_dict \<longrightarrow>
            map_of (create_prot_dict iter df1 df2 df3 df4) prot
            = Some [prog_og df1 prot, prog_og df2 prot, prog_og df3 prot, og])"
proof -
  have first: "prog_og (to_df prog_dict) prot = og" using assms(2,3,4) by (rule prog_og_first)
  have "members prog_dict = members pre \<union> set L \<union> members post"
    unfolding assms(2) members_def by auto
  then have q: "prot \<in> set (queries (to_df prog_dict))"
    using assms(3) by (simp only: queries_to_df) simp
  note l = create_prot_dict_lookup(3)[OF assms(1), of prot]
  have c1: "map_of (create_prot_dict iter df1 df2 df3 df4) prot
            = Some [og, prog_og df2 prot, prog_og df3 prot, prog_og df4 prot]"
    if "df1 = to_df prog_dict" using that first q l by simp
  have c2: "map_of (create_prot_dict iter df1 df2 df3 df4) prot
            = Some [prog_og df1 prot, og, prog_og df3 prot, prog_og df4 prot]"
    if "df2 = to_df prog_dict" using that first q l by simp
  have c3: "map_of (create_prot_dict iter df1 df2 df3 df4) prot
            = Some [prog_og df1 prot, prog_og df2 prot, og, prog_og df4 prot]"
    if "df3 = to_df prog_dict" using that first q l by simp
  have c4: "map_of (create_prot_dict iter df1 df2 df3 df4) prot
            = Some [prog_og df1 prot, prog_og df2 prot, prog_og df3 prot, og]"
    if "df4 = to_df prog_dict" using that first q l by simp
  show ?thesis using first c1 c2 c3 c4 by blast
qed

theorem index_builder_first_cluster_wins_witness:
  "map_of (create_prot_dict remdups (to_df [(''OG1'', [''p1'']), (''OG2'', [''p1'', ''p2''])])
             (to_df []) (to_df []) (to_df [])) ''p1''
   = Some [''OG1'', ''-'', ''-'', ''-'']"
proof -
  have ok: "set_iter_ok remdups (queries (to_df [(''OG1'', [''p1'']), (''OG2'', [''p1'', ''p2''])])
              @ queries (to_df []) @ queries (to_df []) @ queries (to_df []))"
    by (simp add: set_iter_ok_def)
  have s: "[(''OG1'', [''p1'']), (''OG2'', [''p1'', ''p2''])] = [] @ (''OG1'', [''p1'']) # [(''OG2'', [''p1'', ''p2''])]"
    by simp
  have e: "prog_og (to_df []) ''p1'' = ''-''"
    by (simp add: prog_og_def to_df_def queries_def)
  have m: "''p1'' \<in> set [''p1'']" "''p1'' \<notin> members []" by (simp_all add: members_def)
  from index_builder_first_cluster_wins[OF ok s m]
  show ?thesis unfolding e by blast
qed

text \<open>
  Claim C2 as stated fails: \<open>p1\<close> is in \<open>OG1\<close> and then in \<open>OG2\<close>; the record holds
  \<open>OG1\<close>, not the cluster seen last.
\<close>

theorem index_builder_last_write_counterexample:
  "create_prot_dict remdups (to_df [(''OG1'', [''p1'']), (''OG2'', [''p1''])]) (to_df []) (to_df []) (to_df [])
   = [(''p1'', [''OG1'', ''-'', ''-'', ''-''])]
   \<and> last [(''OG1'', [''p1'']), (''OG2'', [''p1''])] = (''OG2'', [''p1''])"
  by (simp add: create_prot_dict_def prog_og_def to_df_def queries_def loc_iloc0_def)

section \<open>The main program: resuming from checkpoint 2\<close>

lemma write_only_ret: "write_only (ret x) N"
  unfolding write_only_def writes_def by (intro exI[of _ "Inr x"] exI[of _ Map.empty]) (simp add: ret_def)

lemma write_only_lift: "write_only (lift r) N"
  unfolding write_only_def writes_def by (intro exI[of _ r] exI[of _ Map.empty]) (simp add: lift_def)

lemma write_only_dump: "name \<in> N \<Longrightarrow> write_only (dump name c) N"
  unfolding write_only_def writes_def
  by (intro exI[of _ "Inr ()"] exI[of _ "[name \<mapsto> c]"]) (simp add: dump_def)

lemma write_only_bind:
  assumes "write_only m N" "\<And>x. write_only (f x) N"
  shows "write_only (bind_run m f) N"
proof -
  obtain res w where m: "\<And>g. m g = (res, g ++ w)" "dom w \<subseteq> N"
    using assms(1) unfolding write_only_def writes_def by blast
  show ?thesis
  proof (cases res)
    case (Inl e)
    have "writes (bind_run m f) (Inl e) w N"
      unfolding writes_def using m Inl by (simp add: bind_run_def)
    then show ?thesis unfolding write_only_def by blast
  next
    case (Inr x)
    obtain res2 w2 where f: "\<And>g. f x g = (res2, g ++ w2)" "dom w2 \<subseteq> N"
      using assms(2)[of x] unfolding write_only_def writes_def by blast
    have "writes (bind_run m f) res2 (w ++ w2) N"
      unfolding writes_def using m f Inr by (auto simp: bind_run_def)
    then show ?thesis unfolding write_only_def by blast
  qed
qed

lemma write_only_checkpointed:
  "prefix @ ident @ ''.json'' \<in> N \<Longrightarrow> write_only (checkpointed prefix ident wrap result) N"
  unfolding checkpointed_def by (intro write_only_bind write_only_dump write_only_ret)

lemma write_only_twice:
  assumes "write_only m N" "m g = (r, g')"
  shows "m g' = (r, g')" "\<And>name. name \<notin> N \<Longrightarrow> g' name = g name"
proof -
  obtain res w where m: "\<And>g. m g = (res, g ++ w)" "dom w \<subseteq> N"
    using assms(1) unfolding write_only_def writes_def by blast
  have r: "r = res" "g' = g ++ w" using m(1)[of g] assms(2) by simp_all
  have "(g ++ w) ++ w = g ++ w" by (auto simp: map_add_def fun_eq_iff split: option.splits)
  then show "m g' = (r, g')" using m(1)[of g'] r by simp
  show "g' name = g name" if "name \<notin> N" for name
    using that m(2) r(2) by (auto simp: map_add_def split: option.splits)
qed

lemma write_only_tail: "write_only (tail_from_prot e a pl prot_dict d1 d2 d3 d4) (outputs e a)"
  unfolding tail_from_prot_def filter_prot_dict_run_def membership_test_run_def
    avg_membership_scores_run_def
  by (intro write_only_bind write_only_checkpointed write_only_lift write_only_ret write_only_dump)
     (simp_all add: outputs_def)

lemma dict_of_pairs_fold:
  assumes "distinct (map fst ps)" "fst ` set acc \<inter> fst ` set ps = {}"
  shows "fold (\<lambda>(k, v) d. dict_set k v d) ps acc = acc @ ps"
  using assms
proof (induction ps arbitrary: acc)
  case Nil
  then show ?case by simp
next
  case (Cons p ps)
  obtain k v where p: "p = (k, v)" by (cases p)
  have fresh: "k \<notin> fst ` set acc" using Cons.prems p by auto
  have d: "distinct (map fst ps)" and disj: "fst ` set (acc @ [(k, v)]) \<inter> fst ` set ps = {}"
    using Cons.prems p by auto
  show ?case using Cons.IH[OF d disj] by (simp add: p dict_set_fresh[OF fresh])
qed

lemma dict_of_pairs_distinct: "distinct (map fst ps) \<Longrightarrow> dict_of_pairs ps = ps"
  unfolding dict_of_pairs_def using dict_of_pairs_fold[of ps "[]"] by simp

lemma db_list_files: "db_list a = Inr inputs \<Longrightarrow> \<not> no_files (input_files a)"
  by (auto simp: db_list_def no_files_def first_four_def nth_py_def split: option.splits)

lemma load_lists_found: "g name = Some (JsonLists ps) \<Longrightarrow> load_lists name g = (Inr (dict_of_pairs ps), g)"
  by (simp add: load_lists_def)

lemma main_run_all_unfold:
  assumes "run_mode a = RunAll" "db_list a = Inr (in1, in2, in3, in4)" "program_list a = Inr pl"
    and "fs in1 = Some (JsonLists ps1)" "fs in2 = Some (JsonLists ps2)"
        "fs in3 = Some (JsonLists ps3)" "fs in4 = Some (JsonLists ps4)"
  shows "main e a fs =
         tail_from_prot e a pl
           (create_prot_dict (set_iter e) (to_df (dict_of_pairs ps1)) (to_df (dict_of_pairs ps2))
              (to_df (dict_of_pairs ps3)) (to_df (dict_of_pairs ps4)))
           (dict_of_pairs ps1) (dict_of_pairs ps2) (dict_of_pairs ps3) (dict_of_pairs ps4)
           (fs(''prot_dict_'' @ run_identifier e a @ ''.json'' \<mapsto>
                JsonLists (create_prot_dict (set_iter e) (to_df (dict_of_pairs ps1)) (to_df (dict_of_pairs ps2))
                  (to_df (dict_of_pairs ps3)) (to_df (dict_of_pairs ps4)))))"
proof -
  have s: "sanity_check a = Inr ()"
    using assms(1) db_list_files[OF assms(2)] by (simp add: sanity_check_def)
  have d: "data_2_pandas in1 in2 in3 in4 fs =
           (Inr (to_df (dict_of_pairs ps1), dict_of_pairs ps1, to_df (dict_of_pairs ps2), dict_of_pairs ps2,
                 to_df (dict_of_pairs ps3), dict_of_pairs ps3, to_df (dict_of_pairs ps4), dict_of_pairs ps4), fs)"
    using assms(4-7) by (simp add: data_2_pandas_def bind_run_def load_lists_found ret_def)
  show ?thesis
    unfolding main_def run_all_def tail_from_prot_def
    by (simp add: bind_run_def lift_def s assms(1,2,3) d create_prot_dict_run_def checkpointed_def
          dump_def ret_def)
qed

lemma main_checkpoint2_unfold:
  assumes "run_mode a = Checkpoint C2" "db_list a = Inr (in1, in2, in3, in4)" "program_list a = Inr pl"
    and "input_json a = Some json_file" "test_identifier a = Some ident" "ident \<noteq> []"
    and "g json_file = Some (JsonLists prot_dict)" "distinct (map fst prot_dict)"
    and "g in1 = Some (JsonLists ps1)" "g in2 = Some (JsonLists ps2)"
        "g in3 = Some (JsonLists ps3)" "g in4 = Some (JsonLists ps4)"
  shows "main e a g =
         tail_from_prot e a pl prot_dict
           (dict_of_pairs ps1) (dict_of_pairs ps2) (dict_of_pairs ps3) (dict_of_pairs ps4) g"
proof -
  have s: "sanity_check a = Inr ()"
    using assms(1,4,5,6) db_list_files[OF assms(2)] by (simp add: sanity_check_def)
  have l: "load_cluster_dicts (in1, in2, in3, in4) g =
           (Inr (dict_of_pairs ps1, dict_of_pairs ps2, dict_of_pairs ps3, dict_of_pairs ps4), g)"
    using assms(9-12) by (simp add: load_cluster_dicts_def bind_run_def load_lists_found ret_def)
  have p: "load_lists json_file g = (Inr prot_dict, g)"
    using assms(7,8) by (simp add: load_lists_found dict_of_pairs_distinct)
  show ?thesis
    unfolding main_def run_checkpoint_def tail_from_prot_def
    by (simp add: bind_run_def lift_def s assms(1,2,3,4) l p input_json_name_def)
qed

lemma fold_dict_set_fun_distinct:
  "distinct (map fst acc) \<Longrightarrow> distinct (map fst (fold (\<lambda>p d. dict_set p (f p) d) ps acc))"
  by (induction ps arbitrary: acc) (auto simp: distinct_dict_set)

lemma create_prot_dict_distinct: "distinct (map fst (create_prot_dict iter df1 df2 df3 df4))"
  unfolding create_prot_dict_def by (rule fold_dict_set_fun_distinct) simp

lemma json_not_txt: "x @ ''.json'' \<noteq> y @ ''.txt''"
proof
  assume "x @ ''.json'' = y @ ''.txt''"
  then have "last (x @ ''.json'') = last (y @ ''.txt'')" by simp
  then show False by simp
qed

lemma prot_dict_not_output: "''prot_dict_'' @ run_identifier e a @ ''.json'' \<notin> outputs e a"
  using json_not_txt[of "''prot_dict_'' @ run_identifier e a" "out_name a @ ''__'' @ str_int (membership_percent a)"]
  by (simp add: outputs_def membership_results_def)

lemma tail_resume_args:
  assumes "run_identifier e a \<noteq> []"
  shows "tail_from_prot e (resume_args e a) = tail_from_prot e a"
proof -
  have "run_identifier e (resume_args e a) = run_identifier e a"
    using assms by (simp add: resume_args_def run_identifier_def)
  moreover have "membership_results (resume_args e a) = membership_results a"
    by (simp add: resume_args_def membership_results_def)
  moreover have "membership_percent (resume_args e a) = membership_percent a"
    by (simp add: resume_args_def)
  ultimately show ?thesis by (simp add: tail_from_prot_def fun_eq_iff)
qed



section \<open>The main program: the report\<close>

lemma bind_run_Inr:
  "bind_run m f g = (Inr y, g') \<longleftrightarrow> (\<exists>x g1. m g = (Inr x, g1) \<and> f x g1 = (Inr y, g'))"
  by (auto simp: bind_run_def split: prod.splits sum.splits)

lemma key_clean_append: "key_clean (x @ y) = key_clean x @ key_clean y"
  by (simp add: key_clean_def)

lemma key_clean_vs: "key_clean (vs prog_a prog_b) = key_clean prog_a @ '' vs '' @ key_clean prog_b"
  by (simp add: vs_def key_clean_append) (simp add: key_clean_def)

lemma key_clean_no_underscore: "CHR ''_'' \<notin> set name \<Longrightarrow> key_clean name = name"
  unfolding key_clean_def by (induction name) auto

lemma threshold_test_keys:
  assumes "distinct (map fst sd)"
  shows "distinct (map fst (threshold_test p sd)) \<and> fst ` set (threshold_test p sd) \<subseteq> fst ` set sd"
  unfolding threshold_test_distinct[OF assms] using assms by (auto simp: distinct_map_filter)

lemma scores_tail_keys:
  assumes "membership_test_run pl ident filt d1 d2 d3 d4 g1 = (Inr cd, g2)"
    and "avg_membership_scores_run ident cd g2 = (Inr sd, g3)"
    and "ret (threshold_test p sd) g3 = (Inr td, g')"
  shows "distinct (map fst td) \<and> fst ` set td \<subseteq> set (comparison_names pl)"
proof -
  have mt: "membership_test pl filt d1 d2 d3 d4 = Inr cd"
    using assms(1) unfolding membership_test_run_def checkpointed_def
    by (auto simp: bind_run_Inr lift_def ret_def dump_def)
  have av: "avg_membership_scores cd = Inr sd"
    using assms(2) unfolding avg_membership_scores_run_def checkpointed_def
    by (auto simp: bind_run_Inr lift_def ret_def dump_def)
  have td: "td = threshold_test p sd" using assms(3) by (simp add: ret_def)
  note props = membership_test_props[OF mt]
  have sd: "distinct (map fst sd)" "map fst sd = map fst cd"
    using avg_membership_scores_range[OF props(1) props(3) av] by blast+
  have "fst ` set sd = set (comparison_names pl)"
    using sd(2) props(2) by (metis set_map)
  then show ?thesis using threshold_test_keys[OF sd(1), of p] td by simp
qed

lemma run_all_keys:
  assumes "run_all e a pl g = (Inr td, g')"
  shows "distinct (map fst td) \<and> fst ` set td \<subseteq> set (comparison_names pl)"
proof -
  from assms obtain ident filt d1 d2 d3 d4 g1 cd g2 sd g3 where
    "membership_test_run pl ident filt d1 d2 d3 d4 g1 = (Inr cd, g2)"
    "avg_membership_scores_run ident cd g2 = (Inr sd, g3)"
    "ret (threshold_test (membership_percent a) sd) g3 = (Inr td, g')"
    unfolding run_all_def by (auto simp: bind_run_Inr)
  then show ?thesis by (rule scores_tail_keys)
qed

lemma run_checkpoint_keys:
  assumes "run_checkpoint e a pl c g = (Inr td, g')" "c = C2 \<or> c = C3"
  shows "distinct (map fst td) \<and> fst ` set td \<subseteq> set (comparison_names pl)"
proof -
  from assms obtain ident filt d1 d2 d3 d4 g1 cd g2 sd g3 where
    "membership_test_run pl ident filt d1 d2 d3 d4 g1 = (Inr cd, g2)"
    "avg_membership_scores_run ident cd g2 = (Inr sd, g3)"
    "ret (threshold_test (membership_percent a) sd) g3 = (Inr td, g')"
    unfolding run_checkpoint_def by (auto simp: bind_run_Inr)
  then show ?thesis by (rule scores_tail_keys)
qed

lemma main_success:
  assumes "main e a fs = (Inr (), fs')"
  shows "\<exists>pl td g. program_list a = Inr pl
           \<and> (case run_mode a of RunAll \<Rightarrow> run_all e a pl | Checkpoint c \<Rightarrow> run_checkpoint e a pl c) fs
               = (Inr td, g)
           \<and> fs' = g(membership_results a \<mapsto> Text (report e (membership_percent a) td))"
  using assms unfolding main_def
  by (auto simp: bind_run_Inr lift_def dump_def)




end
